theory Spec2Isabelle
  imports Complex_Main
begin

section \<open>Data model\<close>

text \<open>
  The order book keeps two arrays of price levels. A JavaScript \<open>number\<close> that
  reaches the pipeline is modelled as a finite real: arithmetic is exact, and the
  non-finite values (\<open>NaN\<close>, the infinities) appear only in the metrics, where
  the code can produce them from finite levels. The fields \<open>size\<close> and \<open>total\<close>
  of the source carry a prime here, since both names are taken in HOL.
\<close>

type_synonym OrderFeed = "real \<times> real"

datatype OrderSide = BID | ASK

record Order =
  price :: real
  size' :: real
  total' :: real

text \<open>
  \<open>levelsDeep\<close> is a public numeric field (25 in the first implementation, 10 in
  the second); it is modelled as a natural number, so \<open>- levelsDeep\<close> is at most 0.
\<close>

record OrderBook =
  levelsDeep :: nat
  bids :: "Order list"
  asks :: "Order list"

section \<open>Library functions used by the pipeline\<close>

text \<open>lodash \<open>findIndex\<close>: the first index whose element satisfies the predicate;
  the source's \<open>-1\<close> is \<open>None\<close>.\<close>

fun findIndex :: "'a list \<Rightarrow> ('a \<Rightarrow> bool) \<Rightarrow> nat option" where
  "findIndex [] P = None"
| "findIndex (x # xs) P = (if P x then Some 0 else map_option Suc (findIndex xs P))"

text \<open>
  lodash \<open>sortedIndexBy\<close> (its \<open>baseSortedIndexBy\<close> loop, for numeric keys): a binary
  search between \<open>low\<close> and \<open>high\<close> that moves \<open>low\<close> past \<open>mid\<close> when the key at
  \<open>mid\<close> is smaller than the key searched for, and returns \<open>high\<close>.
\<close>

function baseSortedIndexBy :: "'a list \<Rightarrow> real \<Rightarrow> ('a \<Rightarrow> real) \<Rightarrow> nat \<Rightarrow> nat \<Rightarrow> nat" where
  "baseSortedIndexBy array v iteratee low high =
     (if low < high
      then (if iteratee (array ! ((low + high) div 2)) < v
            then baseSortedIndexBy array v iteratee ((low + high) div 2 + 1) high
            else baseSortedIndexBy array v iteratee low ((low + high) div 2))
      else high)"
  by pat_completeness auto
termination
  by (relation "measure (\<lambda>(array, v, iteratee, low, high). high - low)") auto

declare baseSortedIndexBy.simps [simp del]

definition sortedIndexBy :: "'a list \<Rightarrow> 'a \<Rightarrow> ('a \<Rightarrow> real) \<Rightarrow> nat" where
  "sortedIndexBy array x iteratee =
     (if length array = 0 then 0
      else baseSortedIndexBy array (iteratee x) iteratee 0 (length array))"

text \<open>\<open>Array.prototype.splice(start, 0, item)\<close>: insert one item at \<open>start\<close>
  (clamped to the length).\<close>

definition splice' :: "nat \<Rightarrow> 'a \<Rightarrow> 'a list \<Rightarrow> 'a list" where
  "splice' start item xs = take start xs @ item # drop start xs"

text \<open>\<open>Array.prototype.slice(start, end)\<close> with its relative (negative) indices;
  an absent \<open>end\<close> is \<open>None\<close>.\<close>

definition slice :: "int \<Rightarrow> int option \<Rightarrow> 'a list \<Rightarrow> 'a list" where
  "slice start fin xs =
     (let len = int (length xs);
          k = (if start < 0 then max (len + start) 0 else min start len);
          final = (case fin of
                     None \<Rightarrow> len
                   | Some e \<Rightarrow> if e < 0 then max (len + e) 0 else min e len)
      in take (nat (final - k)) (drop (nat k) xs))"

section \<open>The pipeline\<close>

definition mapOrder :: "OrderFeed \<Rightarrow> Order" where
  "mapOrder feed = \<lparr>price = fst feed, size' = snd feed, total' = 0\<rparr>"

definition mapOrders :: "OrderFeed list \<Rightarrow> Order list" where
  "mapOrders feed = map mapOrder feed"

text \<open>The reducer of \<open>upsert\<close>: overwrite the size of the first level with the same
  price, or insert the new level at the index found by the binary search on the
  negated price.\<close>

definition upsertOne :: "Order list \<Rightarrow> Order \<Rightarrow> Order list" where
  "upsertOne acc ord =
     (case findIndex acc (\<lambda>x. price x = price ord) of
        Some updateIndex \<Rightarrow> acc[updateIndex := (acc ! updateIndex)\<lparr>size' := size' ord\<rparr>]
      | None \<Rightarrow> splice' (sortedIndexBy acc ord (\<lambda>x. - price x)) ord acc)"

definition upsert :: "OrderSide \<Rightarrow> OrderBook \<Rightarrow> Order list \<Rightarrow> Order list" where
  "upsert side book newOrders =
     foldl upsertOne (case side of BID \<Rightarrow> bids book | ASK \<Rightarrow> asks book) newOrders"

definition filterEmptyOrders :: "Order list \<Rightarrow> Order list" where
  "filterEmptyOrders orders = filter (\<lambda>x. size' x > 0) orders"

text \<open>
  \<open>sumOrders\<close> walks the array by index and writes \<open>total\<close> into the element at
  that index: upwards from index 0 for bids (\<open>reduce\<close>), downwards from the last
  index for asks (\<open>reduceRight\<close>). The accumulator is the array itself, so the read
  of the neighbour's total sees what the previous iteration wrote.
\<close>

definition sumBidStep :: "Order list \<Rightarrow> nat \<Rightarrow> Order list" where
  "sumBidStep acc i =
     acc[i := (acc ! i)\<lparr>total' :=
        (if i = 0 then size' (acc ! i) else total' (acc ! (i - 1)) + size' (acc ! i))\<rparr>]"

definition sumAskStep :: "Order list \<Rightarrow> nat \<Rightarrow> Order list" where
  "sumAskStep acc i =
     acc[i := (acc ! i)\<lparr>total' :=
        (if i = length acc - 1 then size' (acc ! i)
         else total' (acc ! (i + 1)) + size' (acc ! i))\<rparr>]"

definition sumOrders :: "OrderSide \<Rightarrow> Order list \<Rightarrow> Order list" where
  "sumOrders side orders =
     (case side of
        BID \<Rightarrow> foldl sumBidStep orders [0..<length orders]
      | ASK \<Rightarrow> foldr (\<lambda>i acc. sumAskStep acc i) [0..<length orders] orders)"

definition trimBook :: "OrderSide \<Rightarrow> nat \<Rightarrow> Order list \<Rightarrow> Order list" where
  "trimBook side deep orders =
     (case side of
        BID \<Rightarrow> slice 0 (Some (int deep)) orders
      | ASK \<Rightarrow> slice (- int deep) None orders)"

definition commitOrders :: "OrderSide \<Rightarrow> Order list \<Rightarrow> OrderBook \<Rightarrow> OrderBook" where
  "commitOrders side orders book =
     (case side of BID \<Rightarrow> book\<lparr>bids := orders\<rparr> | ASK \<Rightarrow> book\<lparr>asks := orders\<rparr>)"

definition processOrders :: "OrderFeed list \<Rightarrow> OrderSide \<Rightarrow> OrderBook \<Rightarrow> OrderBook" where
  "processOrders feed side book =
     commitOrders side
       (trimBook side (levelsDeep book)
          (sumOrders side (filterEmptyOrders (upsert side book (mapOrders feed)))))
       book"

definition processFeed :: "OrderFeed list \<Rightarrow> OrderFeed list \<Rightarrow> OrderBook \<Rightarrow> OrderBook" where
  "processFeed bidFeed askFeed book =
     processOrders askFeed ASK (processOrders bidFeed BID book)"

text \<open>The constructor of the first implementation: an empty book of depth 25,
  fed the initial snapshot.\<close>

definition newOrderBook :: "OrderFeed list \<Rightarrow> OrderFeed list \<Rightarrow> OrderBook" where
  "newOrderBook bidFeed askFeed =
     processFeed bidFeed askFeed \<lparr>levelsDeep = 25, bids = [], asks = []\<rparr>"

text \<open>
  The second implementation in the source runs the same stages under other names
  (\<open>applyOrders\<close>, \<open>upsertSorted\<close>, \<open>filterZeroSizes\<close>, \<open>sumSizes\<close>, \<open>trimOrders\<close>) and
  commits a copy of the result; its book starts at depth 10.
\<close>

definition newOrderBook2 :: "OrderFeed list \<Rightarrow> OrderFeed list \<Rightarrow> OrderBook" where
  "newOrderBook2 bidFeed askFeed =
     processFeed bidFeed askFeed \<lparr>levelsDeep = 10, bids = [], asks = []\<rparr>"

section \<open>Metrics\<close>

text \<open>
  The metrics read the top of book and can meet \<open>undefined\<close> (an empty side) and
  produce \<open>NaN\<close> or an infinity (a division by zero), so they compute on JavaScript
  values. Signed zeros are not distinguished.
\<close>

datatype jsval = Num real | NaN | PosInf | NegInf | Undefined

fun js_add :: "jsval \<Rightarrow> jsval \<Rightarrow> jsval" where
  "js_add (Num a) (Num b) = Num (a + b)"
| "js_add (Num a) PosInf = PosInf"
| "js_add (Num a) NegInf = NegInf"
| "js_add PosInf (Num b) = PosInf"
| "js_add PosInf PosInf = PosInf"
| "js_add NegInf (Num b) = NegInf"
| "js_add NegInf NegInf = NegInf"
| "js_add _ _ = NaN"

fun js_sub :: "jsval \<Rightarrow> jsval \<Rightarrow> jsval" where
  "js_sub (Num a) (Num b) = Num (a - b)"
| "js_sub (Num a) PosInf = NegInf"
| "js_sub (Num a) NegInf = PosInf"
| "js_sub PosInf (Num b) = PosInf"
| "js_sub PosInf NegInf = PosInf"
| "js_sub NegInf (Num b) = NegInf"
| "js_sub NegInf PosInf = NegInf"
| "js_sub _ _ = NaN"

definition js_inf :: "bool \<Rightarrow> jsval" where
  "js_inf positive = (if positive then PosInf else NegInf)"

fun js_mul :: "jsval \<Rightarrow> jsval \<Rightarrow> jsval" where
  "js_mul (Num a) (Num b) = Num (a * b)"
| "js_mul (Num a) PosInf = (if a = 0 then NaN else js_inf (0 < a))"
| "js_mul (Num a) NegInf = (if a = 0 then NaN else js_inf (a < 0))"
| "js_mul PosInf (Num b) = (if b = 0 then NaN else js_inf (0 < b))"
| "js_mul NegInf (Num b) = (if b = 0 then NaN else js_inf (b < 0))"
| "js_mul PosInf PosInf = PosInf"
| "js_mul PosInf NegInf = NegInf"
| "js_mul NegInf PosInf = NegInf"
| "js_mul NegInf NegInf = PosInf"
| "js_mul _ _ = NaN"

fun js_div :: "jsval \<Rightarrow> jsval \<Rightarrow> jsval" where
  "js_div (Num a) (Num b) =
     (if b \<noteq> 0 then Num (a / b) else if a = 0 then NaN else js_inf (0 < a))"
| "js_div (Num a) PosInf = Num 0"
| "js_div (Num a) NegInf = Num 0"
| "js_div PosInf (Num b) = js_inf (0 \<le> b)"
| "js_div NegInf (Num b) = js_inf (b < 0)"
| "js_div _ _ = NaN"

fun falsy :: "jsval \<Rightarrow> bool" where
  "falsy (Num a) = (a = 0)"
| "falsy NaN = True"
| "falsy Undefined = True"
| "falsy _ = False"

definition js_or :: "jsval \<Rightarrow> jsval \<Rightarrow> jsval" where
  "js_or a b = (if falsy a then b else a)"

text \<open>lodash \<open>head\<close> and \<open>last\<close> (\<open>undefined\<close> on an empty array) followed by
  \<open>?.price\<close>.\<close>

definition head :: "'a list \<Rightarrow> 'a option" where
  "head xs = (case xs of [] \<Rightarrow> None | x # _ \<Rightarrow> Some x)"

definition last' :: "'a list \<Rightarrow> 'a option" where
  "last' xs = (if xs = [] then None else Some (last xs))"

definition priceOf :: "Order option \<Rightarrow> jsval" where
  "priceOf x = (case x of None \<Rightarrow> Undefined | Some ord \<Rightarrow> Num (price ord))"

subsection \<open>First implementation (guarded)\<close>

text \<open>\<open>round\<close> comes from a module that is not part of the sources; the metrics
  take it as the parameter \<open>rnd\<close>.\<close>

definition topAsk :: "OrderBook \<Rightarrow> jsval" where
  "topAsk book = js_or (priceOf (last' (asks book))) (Num 0)"

definition topBid :: "OrderBook \<Rightarrow> jsval" where
  "topBid book = js_or (priceOf (head (bids book))) (Num 0)"

definition hasSpread :: "OrderBook \<Rightarrow> bool" where
  "hasSpread book = (length (bids book) > 0 \<and> length (asks book) > 0)"

definition spread :: "(jsval \<Rightarrow> jsval) \<Rightarrow> OrderBook \<Rightarrow> jsval" where
  "spread rnd book =
     (if hasSpread book then rnd (js_sub (topAsk book) (topBid book)) else Num 0)"

definition midPoint :: "OrderBook \<Rightarrow> jsval" where
  "midPoint book = js_add (topAsk book) (js_div (topBid book) (Num 2))"

definition spreadPercent :: "(jsval \<Rightarrow> jsval) \<Rightarrow> OrderBook \<Rightarrow> jsval" where
  "spreadPercent rnd book =
     js_or (rnd (js_mul (js_div (spread rnd book) (midPoint book)) (Num 100))) (Num 0)"

subsection \<open>Second implementation (unguarded)\<close>

definition highestBid :: "OrderBook \<Rightarrow> jsval" where
  "highestBid book = priceOf (head (bids book))"

definition lowestAsk :: "OrderBook \<Rightarrow> jsval" where
  "lowestAsk book = priceOf (head (slice (- 1) None (asks book)))"

definition spread2 :: "OrderBook \<Rightarrow> jsval" where
  "spread2 book = js_sub (lowestAsk book) (highestBid book)"

definition midPoint2 :: "OrderBook \<Rightarrow> jsval" where
  "midPoint2 book = js_add (lowestAsk book) (js_div (highestBid book) (Num 2))"

definition spreadPercent2 :: "(jsval \<Rightarrow> jsval) \<Rightarrow> OrderBook \<Rightarrow> jsval" where
  "spreadPercent2 rnd book =
     rnd (js_mul (js_div (spread2 book) (midPoint2 book)) (Num 100))"

section \<open>Properties of a book side\<close>

text \<open>
  Closed forms of the two aggregation passes, used in the proofs: the running sum
  from the head (bids) and the sum of the remaining suffix (asks).
\<close>

fun runningTotals :: "real \<Rightarrow> Order list \<Rightarrow> Order list" where
  "runningTotals a [] = []"
| "runningTotals a (x # xs) = x\<lparr>total' := a + size' x\<rparr> # runningTotals (a + size' x) xs"

fun suffixTotals :: "Order list \<Rightarrow> Order list" where
  "suffixTotals [] = []"
| "suffixTotals (x # xs) = x\<lparr>total' := sum_list (map size' xs) + size' x\<rparr> # suffixTotals xs"

text \<open>The invariants of a side: strictly descending prices, positive sizes, and the
  cumulative-total recurrence, which starts at index 0 for bids and at the last index
  for asks.\<close>

definition descending :: "Order list \<Rightarrow> bool" where
  "descending xs = sorted_wrt (\<lambda>a b. price a > price b) xs"

definition positiveSizes :: "Order list \<Rightarrow> bool" where
  "positiveSizes xs = (\<forall>x\<in>set xs. 0 < size' x)"

definition cumulative :: "OrderSide \<Rightarrow> Order list \<Rightarrow> bool" where
  "cumulative side xs =
     (case side of
        BID \<Rightarrow> (\<forall>i\<in>{0..<length xs}. total' (xs ! i) =
                  (if i = 0 then size' (xs ! i) else total' (xs ! (i - 1)) + size' (xs ! i)))
      | ASK \<Rightarrow> (\<forall>i\<in>{0..<length xs}. total' (xs ! i) =
                  (if i = length xs - 1 then size' (xs ! i)
                   else total' (xs ! (i + 1)) + size' (xs ! i))))"

text \<open>A side as the committed book keeps it: the invariants above, within the depth.\<close>

definition wellFormed :: "OrderSide \<Rightarrow> nat \<Rightarrow> Order list \<Rightarrow> bool" where
  "wellFormed side deep xs =
     (descending xs \<and> positiveSizes xs \<and> cumulative side xs \<and> length xs \<le> deep)"

text \<open>
  The levels of a side without their totals, and the levels a batch leaves behind:
  for each price the size of its last tuple. Both are used to describe the merge.
\<close>

definition levels :: "Order list \<Rightarrow> (real \<times> real) list" where
  "levels xs = map (\<lambda>x. (price x, size' x)) xs"

fun batchLevels :: "Order list \<Rightarrow> (real \<times> real) set" where
  "batchLevels [] = {}"
| "batchLevels (x # xs) =
     (if price x \<in> price ` set xs then {} else {(price x, size' x)}) \<union> batchLevels xs"

section \<open>Trimming and aggregation in closed form\<close>

lemma trimBook_BID: "trimBook BID n xs = take n xs"
  by (simp add: trimBook_def slice_def Let_def min_def)

lemma trimBook_ASK: "trimBook ASK n xs = (if n = 0 then xs else drop (length xs - n) xs)"
  by (auto simp add: trimBook_def slice_def Let_def max_def min_def nat_diff_distrib)

lemma length_runningTotals [simp]: "length (runningTotals a xs) = length xs"
  by (induction xs arbitrary: a) auto

lemma length_suffixTotals [simp]: "length (suffixTotals xs) = length xs"
  by (induction xs) auto

lemma runningTotals_Nil_iff [simp]: "runningTotals a xs = [] \<longleftrightarrow> xs = []"
  by (cases xs) auto

lemma suffixTotals_Nil_iff [simp]: "suffixTotals xs = [] \<longleftrightarrow> xs = []"
  by (cases xs) auto

lemma runningTotals_snoc:
  "runningTotals a (xs @ [y]) =
     runningTotals a xs @ [y\<lparr>total' := a + sum_list (map size' xs) + size' y\<rparr>]"
  by (induction xs arbitrary: a) (auto simp: add.assoc)

lemma runningTotals_last:
  "xs \<noteq> [] \<Longrightarrow> total' (last (runningTotals a xs)) = a + sum_list (map size' xs)"
  by (induction xs arbitrary: a) (auto simp: add.assoc)

lemma foldl_sumBidStep:
  "k \<le> length xs \<Longrightarrow>
     foldl sumBidStep xs [0..<k] = runningTotals 0 (take k xs) @ drop k xs"
proof (induction k)
  case 0
  then show ?case by simp
next
  case (Suc k)
  then have k: "k < length xs" by simp
  let ?R = "runningTotals 0 (take k xs)"
  have len: "length ?R = k" using k by simp
  have acc: "foldl sumBidStep xs [0..<k] = ?R @ xs ! k # drop (Suc k) xs"
    using Suc k by (simp add: Cons_nth_drop_Suc)
  have prev: "0 < k \<Longrightarrow> total' ((?R @ xs ! k # drop (Suc k) xs) ! (k - 1)) = sum_list (map size' (take k xs))"
  proof -
    assume "0 < k"
    then have ne: "take k xs \<noteq> []" using k by auto
    then have "?R \<noteq> []" by (metis len length_0_conv \<open>0 < k\<close> less_numeral_extra(3))
    then have "(?R @ xs ! k # drop (Suc k) xs) ! (k - 1) = last ?R"
      using len \<open>0 < k\<close> by (simp add: nth_append last_conv_nth)
    then show ?thesis using runningTotals_last [OF ne, of 0] by simp
  qed
  have "foldl sumBidStep xs [0..<Suc k] = sumBidStep (?R @ xs ! k # drop (Suc k) xs) k"
    using acc by simp
  also have "\<dots> = ?R @ (xs ! k)\<lparr>total' := sum_list (map size' (take k xs)) + size' (xs ! k)\<rparr> # drop (Suc k) xs"
    using prev len k by (cases "k = 0") (simp_all add: sumBidStep_def nth_append list_update_append)
  also have "\<dots> = runningTotals 0 (take (Suc k) xs) @ drop (Suc k) xs"
    using k by (simp add: take_Suc_conv_app_nth runningTotals_snoc)
  finally show ?case .
qed

lemma sumOrders_BID: "sumOrders BID xs = runningTotals 0 xs"
  using foldl_sumBidStep [of "length xs" xs] by (simp add: sumOrders_def)

lemma suffixTotals_hd:
  "xs \<noteq> [] \<Longrightarrow> total' (hd (suffixTotals xs)) = sum_list (map size' xs)"
  by (cases xs) auto

lemma foldr_sumAskStep:
  "k \<le> length xs \<Longrightarrow>
     foldr (\<lambda>i acc. sumAskStep acc i) [k..<length xs] xs = take k xs @ suffixTotals (drop k xs)"
proof (induction k rule: inc_induct)
  case base
  then show ?case by simp
next
  case (step k)
  then have k: "k < length xs" by simp
  let ?S = "suffixTotals (drop (Suc k) xs)"
  have acc: "foldr (\<lambda>i acc. sumAskStep acc i) [Suc k..<length xs] xs = take k xs @ xs ! k # ?S"
    using step k by (simp add: take_Suc_conv_app_nth)
  have nxt: "Suc k < length xs \<Longrightarrow> total' ((take k xs @ xs ! k # ?S) ! Suc k) = sum_list (map size' (drop (Suc k) xs))"
  proof -
    assume a: "Suc k < length xs"
    then have ne: "drop (Suc k) xs \<noteq> []" by simp
    then have "?S \<noteq> []" by (metis length_suffixTotals length_0_conv)
    then have "(take k xs @ xs ! k # ?S) ! Suc k = hd ?S"
      using k by (simp add: nth_append hd_conv_nth)
    then show ?thesis using suffixTotals_hd [OF ne] by simp
  qed
  have "foldr (\<lambda>i acc. sumAskStep acc i) [k..<length xs] xs = sumAskStep (take k xs @ xs ! k # ?S) k"
    using acc k by (simp add: upt_conv_Cons)
  also have "\<dots> = take k xs @ (xs ! k)\<lparr>total' := sum_list (map size' (drop (Suc k) xs)) + size' (xs ! k)\<rparr> # ?S"
  proof (cases "Suc k < length xs")
    case True
    then show ?thesis using nxt k
      by (simp add: sumAskStep_def nth_append list_update_append)
  next
    case False
    then have "Suc k = length xs" using k by simp
    then show ?thesis using k
      by (simp add: sumAskStep_def nth_append list_update_append)
  qed
  also have "\<dots> = take k xs @ suffixTotals (drop k xs)"
    using k by (simp add: Cons_nth_drop_Suc [symmetric])
  finally show ?case .
qed

lemma sumOrders_ASK: "sumOrders ASK xs = suffixTotals xs"
  using foldr_sumAskStep [of 0 xs] by (simp add: sumOrders_def)

section \<open>Cumulative totals\<close>

lemma runningTotals_nth:
  "i < length xs \<Longrightarrow>
     runningTotals a xs ! i = (xs ! i)\<lparr>total' := a + sum_list (map size' (take (Suc i) xs))\<rparr>"
proof (induction xs arbitrary: a i)
  case Nil
  then show ?case by simp
next
  case (Cons x xs)
  then show ?case by (cases i) (simp_all add: add.assoc)
qed

lemma suffixTotals_nth:
  "i < length xs \<Longrightarrow>
     suffixTotals xs ! i = (xs ! i)\<lparr>total' := sum_list (map size' (drop i xs))\<rparr>"
proof (induction xs arbitrary: i)
  case Nil
  then show ?case by simp
next
  case (Cons x xs)
  then show ?case by (cases i) (simp_all add: add.commute)
qed

lemma map_price_runningTotals [simp]: "map price (runningTotals a xs) = map price xs"
  by (induction xs arbitrary: a) auto

lemma map_size_runningTotals [simp]: "map size' (runningTotals a xs) = map size' xs"
  by (induction xs arbitrary: a) auto

lemma map_price_suffixTotals [simp]: "map price (suffixTotals xs) = map price xs"
  by (induction xs) auto

lemma map_size_suffixTotals [simp]: "map size' (suffixTotals xs) = map size' xs"
  by (induction xs) auto

lemma take_runningTotals: "take n (runningTotals a xs) = runningTotals a (take n xs)"
proof (induction xs arbitrary: a n)
  case Nil
  then show ?case by simp
next
  case (Cons x xs)
  then show ?case by (cases n) simp_all
qed

lemma drop_suffixTotals: "drop n (suffixTotals xs) = suffixTotals (drop n xs)"
proof (induction xs arbitrary: n)
  case Nil
  then show ?case by simp
next
  case (Cons x xs)
  then show ?case by (cases n) simp_all
qed

lemma trim_sum_commute:
  "trimBook side n (sumOrders side xs) = sumOrders side (trimBook side n xs)"
  by (cases side)
     (simp_all add: trimBook_BID trimBook_ASK sumOrders_BID sumOrders_ASK
        take_runningTotals drop_suffixTotals)

lemma total_runningTotals:
  "i < length xs \<Longrightarrow>
     total' (runningTotals 0 xs ! i) = sum_list (map size' (take (Suc i) (runningTotals 0 xs)))"
  by (simp add: runningTotals_nth take_map [symmetric])

lemma total_suffixTotals:
  "i < length xs \<Longrightarrow>
     total' (suffixTotals xs ! i) = sum_list (map size' (drop i (suffixTotals xs)))"
  by (simp add: suffixTotals_nth drop_map [symmetric])

lemma cumulative_runningTotals: "cumulative BID (runningTotals 0 xs)"
proof -
  have "total' (runningTotals 0 xs ! i) =
          (if i = 0 then size' (runningTotals 0 xs ! i)
           else total' (runningTotals 0 xs ! (i - 1)) + size' (runningTotals 0 xs ! i))"
    if i: "i < length xs" for i
  proof (cases i)
    case 0
    then show ?thesis using i by (cases xs) simp_all
  next
    case (Suc j)
    then have j: "j < length xs" using i by simp
    show ?thesis using i j Suc
      by (simp add: runningTotals_nth take_Suc_conv_app_nth [of "Suc j"])
  qed
  then show ?thesis by (simp add: cumulative_def)
qed

lemma cumulative_suffixTotals: "cumulative ASK (suffixTotals xs)"
proof -
  have "total' (suffixTotals xs ! i) =
          (if i = length xs - 1 then size' (suffixTotals xs ! i)
           else total' (suffixTotals xs ! (i + 1)) + size' (suffixTotals xs ! i))"
    if i: "i < length xs" for i
  proof (cases "Suc i < length xs")
    case True
    then show ?thesis using i
      by (simp add: suffixTotals_nth Cons_nth_drop_Suc [symmetric, of i] add.commute)
  next
    case False
    then have "Suc i = length xs" using i by simp
    then show ?thesis using i
      by (simp add: suffixTotals_nth Cons_nth_drop_Suc [symmetric, of i])
  qed
  then show ?thesis by (simp add: cumulative_def)
qed

lemma bids_processOrders_BID:
  "bids (processOrders feed BID b) =
     trimBook BID (levelsDeep b)
       (sumOrders BID (filterEmptyOrders (foldl upsertOne (bids b) (mapOrders feed))))"
  by (simp add: processOrders_def commitOrders_def upsert_def)

lemma asks_processOrders_ASK:
  "asks (processOrders feed ASK b) =
     trimBook ASK (levelsDeep b)
       (sumOrders ASK (filterEmptyOrders (foldl upsertOne (asks b) (mapOrders feed))))"
  by (simp add: processOrders_def commitOrders_def upsert_def)

lemma processOrders_frame [simp]:
  "asks (processOrders feed BID b) = asks b"
  "bids (processOrders feed ASK b) = bids b"
  "levelsDeep (processOrders feed side b) = levelsDeep b"
  by (cases side; simp add: processOrders_def commitOrders_def)+

lemma bids_processFeed:
  "bids (processFeed bf af b) =
     trimBook BID (levelsDeep b)
       (sumOrders BID (filterEmptyOrders (foldl upsertOne (bids b) (mapOrders bf))))"
  by (simp add: processFeed_def bids_processOrders_BID)

lemma asks_processFeed:
  "asks (processFeed bf af b) =
     trimBook ASK (levelsDeep b)
       (sumOrders ASK (filterEmptyOrders (foldl upsertOne (asks b) (mapOrders af))))"
  by (simp add: processFeed_def asks_processOrders_ASK)

lemma levelsDeep_processFeed [simp]: "levelsDeep (processFeed bf af b) = levelsDeep b"
  by (simp add: processFeed_def)

lemma bids_processFeed_closed:
  "\<exists>ys. bids (processFeed bf af b) = runningTotals 0 ys"
  by (metis bids_processFeed trim_sum_commute sumOrders_BID)

lemma asks_processFeed_closed:
  "\<exists>ys. asks (processFeed bf af b) = suffixTotals ys"
  by (metis asks_processFeed trim_sum_commute sumOrders_ASK)

text \<open>
  Claim C1. After every update batch applied by \<open>processFeed\<close>, whatever the book
  was before, each level's total is the sum of the sizes from the side's best price
  out to and including that level. For bids the best price is at index 0:
  \<open>total[0] = size[0]\<close> and \<open>total[i] = total[i-1] + size[i]\<close>; for asks it is at the
  last index: \<open>total[last] = size[last]\<close> and \<open>total[i] = total[i+1] + size[i]\<close>. Both
  the recurrence and the direct summation are stated.
\<close>

theorem cumulative_total_invariant:
  "cumulative BID (bids (processFeed bf af b)) \<and>
   cumulative ASK (asks (processFeed bf af b)) \<and>
   (\<forall>i \<in> {0..<length (bids (processFeed bf af b))}.
      total' (bids (processFeed bf af b) ! i) =
        sum_list (map size' (take (Suc i) (bids (processFeed bf af b))))) \<and>
   (\<forall>i \<in> {0..<length (asks (processFeed bf af b))}.
      total' (asks (processFeed bf af b) ! i) =
        sum_list (map size' (drop i (asks (processFeed bf af b)))))"
proof -
  obtain ys where ys: "bids (processFeed bf af b) = runningTotals 0 ys"
    using bids_processFeed_closed by blast
  obtain zs where zs: "asks (processFeed bf af b) = suffixTotals zs"
    using asks_processFeed_closed by blast
  show ?thesis
    unfolding ys zs
    using cumulative_runningTotals [of ys] cumulative_suffixTotals [of zs]
      total_runningTotals [of _ ys] total_suffixTotals [of _ zs]
    by simp
qed

theorem cumulative_total_invariant_witness:
  "cumulative BID (bids (processFeed [(100,5),(99,3),(98,1)] [(101,4),(102,2)] \<lparr>levelsDeep = 2, bids = [], asks = []\<rparr>)) \<and>
   cumulative ASK (asks (processFeed [(100,5),(99,3),(98,1)] [(101,4),(102,2)] \<lparr>levelsDeep = 2, bids = [], asks = []\<rparr>)) \<and>
   processFeed [(100,5),(99,3),(98,1)] [(101,4),(102,2)] \<lparr>levelsDeep = 2, bids = [], asks = []\<rparr> =
     \<lparr>levelsDeep = 2,
      bids = [\<lparr>price = 100, size' = 5, total' = 5\<rparr>, \<lparr>price = 99, size' = 3, total' = 8\<rparr>],
      asks = [\<lparr>price = 102, size' = 2, total' = 6\<rparr>, \<lparr>price = 101, size' = 4, total' = 4\<rparr>]\<rparr>"
  using cumulative_total_invariant [of "[(100,5),(99,3),(98,1)]" "[(101,4),(102,2)]" "\<lparr>levelsDeep = 2, bids = [], asks = []\<rparr>"]
  by code_simp

section \<open>Stages that leave a well-formed side unchanged\<close>

lemma cumulative_BID_D:
  "cumulative BID xs \<Longrightarrow> i < length xs \<Longrightarrow>
     total' (xs ! i) = (if i = 0 then size' (xs ! i) else total' (xs ! (i - 1)) + size' (xs ! i))"
  unfolding cumulative_def by simp

lemma cumulative_ASK_D:
  "cumulative ASK xs \<Longrightarrow> i < length xs \<Longrightarrow>
     total' (xs ! i) = (if i = length xs - 1 then size' (xs ! i)
                        else total' (xs ! (i + 1)) + size' (xs ! i))"
  unfolding cumulative_def by simp

lemma cumulative_BID_total:
  assumes "cumulative BID xs" "i < length xs"
  shows "total' (xs ! i) = sum_list (map size' (take (Suc i) xs))"
  using assms(2)
proof (induction i)
  case 0
  then show ?case using cumulative_BID_D [OF assms(1), of 0] by (cases xs) simp_all
next
  case (Suc i)
  then have "total' (xs ! Suc i) = total' (xs ! i) + size' (xs ! Suc i)"
    using cumulative_BID_D [OF assms(1), of "Suc i"] by simp
  then show ?case using Suc by (simp add: take_Suc_conv_app_nth [of "Suc i"])
qed

lemma cumulative_ASK_total:
  assumes "cumulative ASK xs" "i < length xs"
  shows "total' (xs ! i) = sum_list (map size' (drop i xs))"
proof -
  have "i \<le> length xs - 1" using assms(2) by simp
  then show ?thesis
  proof (induction i rule: inc_induct)
    case base
    have l: "length xs - 1 < length xs" using assms(2) by simp
    then have "total' (xs ! (length xs - 1)) = size' (xs ! (length xs - 1))"
      using cumulative_ASK_D [OF assms(1), of "length xs - 1"] by simp
    moreover have "drop (length xs - 1) xs = [xs ! (length xs - 1)]"
      using l Cons_nth_drop_Suc [of "length xs - 1" xs] by simp
    ultimately show ?case by simp
  next
    case (step n)
    then have n: "Suc n < length xs" by simp
    then have "n \<noteq> length xs - 1" "n < length xs" by simp_all
    then have "total' (xs ! n) = total' (xs ! Suc n) + size' (xs ! n)"
      using cumulative_ASK_D [OF assms(1), of n] by simp
    then show ?case using step n
      by (simp add: Cons_nth_drop_Suc [symmetric, of n])
  qed
qed

lemma sumOrders_fixed:
  assumes "cumulative side xs"
  shows "sumOrders side xs = xs"
proof (cases side)
  case BID
  have "runningTotals 0 xs = xs"
    using assms BID
    by (intro nth_equalityI) (simp_all add: runningTotals_nth cumulative_BID_total)
  then show ?thesis using BID by (simp add: sumOrders_BID)
next
  case ASK
  have "suffixTotals xs = xs"
    using assms ASK
    by (intro nth_equalityI) (simp_all add: suffixTotals_nth cumulative_ASK_total)
  then show ?thesis using ASK by (simp add: sumOrders_ASK)
qed

lemma trimBook_fixed: "length xs \<le> n \<Longrightarrow> trimBook side n xs = xs"
  by (cases side) (simp_all add: trimBook_BID trimBook_ASK)

lemma filterEmptyOrders_fixed: "positiveSizes xs \<Longrightarrow> filterEmptyOrders xs = xs"
  by (simp add: filterEmptyOrders_def positiveSizes_def)

lemma length_trimBook: "0 < n \<Longrightarrow> length (trimBook side n xs) \<le> n"
  by (cases side) (simp_all add: trimBook_BID trimBook_ASK)

lemma trimBook_ASK_zero: "trimBook ASK 0 xs = xs"
  by (simp add: trimBook_ASK)

section \<open>Depth bound\<close>

text \<open>
  Claim C5. With a positive \<open>levelsDeep\<close>, after every update batch applied by
  \<open>processFeed\<close> each side holds at most \<open>levelsDeep\<close> levels; trimming keeps the
  first \<open>levelsDeep\<close> entries of the bids (the highest prices) and the last
  \<open>levelsDeep\<close> entries of the asks (the lowest prices).
\<close>

theorem depth_bound:
  assumes "0 < levelsDeep b"
  shows "length (bids (processFeed bf af b)) \<le> levelsDeep b \<and>
         length (asks (processFeed bf af b)) \<le> levelsDeep b \<and>
         trimBook BID (levelsDeep b) xs = take (levelsDeep b) xs \<and>
         trimBook ASK (levelsDeep b) xs = drop (length xs - levelsDeep b) xs"
  using assms
  by (simp add: bids_processFeed asks_processFeed length_trimBook trimBook_BID trimBook_ASK)

theorem depth_bound_witness:
  "0 < levelsDeep \<lparr>levelsDeep = 2, bids = [], asks = []\<rparr> \<and>
   length (bids (processFeed [(100,5),(99,3),(98,1)] [(101,4),(102,2),(103,7)]
             \<lparr>levelsDeep = 2, bids = [], asks = []\<rparr>)) \<le> 2 \<and>
   map price (bids (processFeed [(100,5),(99,3),(98,1)] [(101,4),(102,2),(103,7)]
             \<lparr>levelsDeep = 2, bids = [], asks = []\<rparr>)) = [100, 99] \<and>
   length (asks (processFeed [(100,5),(99,3),(98,1)] [(101,4),(102,2),(103,7)]
             \<lparr>levelsDeep = 2, bids = [], asks = []\<rparr>)) \<le> 2 \<and>
   map price (asks (processFeed [(100,5),(99,3),(98,1)] [(101,4),(102,2),(103,7)]
             \<lparr>levelsDeep = 2, bids = [], asks = []\<rparr>)) = [102, 101]"
  using depth_bound [of "\<lparr>levelsDeep = 2, bids = [], asks = []\<rparr>"
      "[(100,5),(99,3),(98,1)]" "[(101,4),(102,2),(103,7)]" "[]"]
  by code_simp

section \<open>Aggregation before trimming\<close>

text \<open>
  Claim C3 says that a level kept by the trim has a total to which the sizes of
  the discarded, deeper levels still contribute. It fails: at depth 1 the kept
  level's total is its own size, and it is the same for two batches that differ
  only in the sizes of the levels that are discarded.
\<close>

theorem discarded_levels_counterexample:
  "processFeed [(100,5),(99,3),(98,1)] [(101,4),(102,2),(103,7)]
     \<lparr>levelsDeep = 1, bids = [], asks = []\<rparr> =
   \<lparr>levelsDeep = 1, bids = [\<lparr>price = 100, size' = 5, total' = 5\<rparr>],
      asks = [\<lparr>price = 101, size' = 4, total' = 4\<rparr>]\<rparr> \<and>
   processFeed [(100,5),(99,30),(98,10)] [(101,4),(102,20),(103,70)]
     \<lparr>levelsDeep = 1, bids = [], asks = []\<rparr> =
   \<lparr>levelsDeep = 1, bids = [\<lparr>price = 100, size' = 5, total' = 5\<rparr>],
      asks = [\<lparr>price = 101, size' = 4, total' = 4\<rparr>]\<rparr>"
  by code_simp

text \<open>
  Claim C3, amended. The cumulative sum runs from the best price outward and the
  trim discards the far end, so the committed side is what aggregation yields on the
  kept levels alone: the sizes of the discarded levels do not contribute to any kept
  total, and aggregating before trimming gives the same result as trimming first.
\<close>

theorem kept_totals_ignore_discarded:
  "bids (processFeed bf af b) =
     sumOrders BID (trimBook BID (levelsDeep b)
       (filterEmptyOrders (upsert BID b (mapOrders bf)))) \<and>
   asks (processFeed bf af b) =
     sumOrders ASK (trimBook ASK (levelsDeep b)
       (filterEmptyOrders (upsert ASK b (mapOrders af))))"
  by (simp add: bids_processFeed asks_processFeed trim_sum_commute upsert_def)

section \<open>Scenario A\<close>

lemma bookA_evaluated:
  "newOrderBook [(100,5),(99,3)] [(101,4),(102,2)] =
     \<lparr>levelsDeep = 25,
      bids = [\<lparr>price = 100, size' = 5, total' = 5\<rparr>, \<lparr>price = 99, size' = 3, total' = 8\<rparr>],
      asks = [\<lparr>price = 102, size' = 2, total' = 6\<rparr>, \<lparr>price = 101, size' = 4, total' = 4\<rparr>]\<rparr>"
  by code_simp

text \<open>
  Claim C2 expects the asks of Scenario A to carry the totals 2 (at price 102) and 6
  (at price 101). The best ask, 101, is the last entry, so the sum starts there: the
  totals are 6 at 102 and 4 at 101.
\<close>

theorem scenarioA_counterexample:
  "asks (newOrderBook [(100,5),(99,3)] [(101,4),(102,2)]) \<noteq>
     [\<lparr>price = 102, size' = 2, total' = 2\<rparr>, \<lparr>price = 101, size' = 4, total' = 6\<rparr>]"
  by (simp add: bookA_evaluated)

text \<open>
  Claim C2, amended. From an empty book, the bids \<open>[[100,5],[99,3]]\<close> and the asks
  \<open>[[101,4],[102,2]]\<close> in one batch give the bids \<open>{100,5,5}, {99,3,8}\<close>, the asks
  \<open>{102,2,6}, {101,4,4}\<close>, best bid 100, best ask 101, and the spread 1 for a
  rounding function that leaves 1 unchanged.
\<close>

theorem scenarioA:
  assumes "rnd (Num 1) = Num 1"
  shows "bids (newOrderBook [(100,5),(99,3)] [(101,4),(102,2)]) =
           [\<lparr>price = 100, size' = 5, total' = 5\<rparr>, \<lparr>price = 99, size' = 3, total' = 8\<rparr>] \<and>
         asks (newOrderBook [(100,5),(99,3)] [(101,4),(102,2)]) =
           [\<lparr>price = 102, size' = 2, total' = 6\<rparr>, \<lparr>price = 101, size' = 4, total' = 4\<rparr>] \<and>
         topBid (newOrderBook [(100,5),(99,3)] [(101,4),(102,2)]) = Num 100 \<and>
         topAsk (newOrderBook [(100,5),(99,3)] [(101,4),(102,2)]) = Num 101 \<and>
         spread rnd (newOrderBook [(100,5),(99,3)] [(101,4),(102,2)]) = Num 1"
  using assms
  by (simp add: bookA_evaluated spread_def hasSpread_def topBid_def topAsk_def
        head_def last'_def priceOf_def js_or_def)

theorem scenarioA_witness:
  "(\<lambda>v. v) (Num 1) = Num 1 \<and>
   asks (newOrderBook [(100,5),(99,3)] [(101,4),(102,2)]) =
           [\<lparr>price = 102, size' = 2, total' = 6\<rparr>, \<lparr>price = 101, size' = 4, total' = 4\<rparr>] \<and>
   spread (\<lambda>v. v) (newOrderBook [(100,5),(99,3)] [(101,4),(102,2)]) = Num 1"
  using scenarioA [of "\<lambda>v. v"] by simp

section \<open>Metrics\<close>

lemma slice_last: "xs \<noteq> [] \<Longrightarrow> slice (- 1) None xs = [last xs]"
proof -
  assume ne: "xs \<noteq> []"
  then have l: "length xs - 1 < length xs" by simp
  have "slice (- 1) None xs = drop (length xs - 1) xs"
    using ne by (simp add: slice_def Let_def max_def nat_diff_distrib)
  also have "\<dots> = [xs ! (length xs - 1)]"
    using l Cons_nth_drop_Suc [of "length xs - 1" xs] by simp
  finally show ?thesis using ne by (simp add: last_conv_nth)
qed

lemma slice_Nil [simp]: "slice s e [] = []"
  by (simp add: slice_def Let_def)

lemma topBid_nonempty: "bids b \<noteq> [] \<Longrightarrow> topBid b = Num (price (hd (bids b)))"
  by (cases "bids b") (auto simp: topBid_def head_def priceOf_def js_or_def)

lemma topAsk_nonempty: "asks b \<noteq> [] \<Longrightarrow> topAsk b = Num (price (last (asks b)))"
  by (auto simp: topAsk_def last'_def priceOf_def js_or_def)

lemma topBid_empty: "bids b = [] \<Longrightarrow> topBid b = Num 0"
  by (simp add: topBid_def head_def priceOf_def js_or_def)

lemma topAsk_empty: "asks b = [] \<Longrightarrow> topAsk b = Num 0"
  by (simp add: topAsk_def last'_def priceOf_def js_or_def)

lemma topBid_Num: "\<exists>x. topBid b = Num x"
  using topBid_empty topBid_nonempty by (cases "bids b = []") blast+

lemma topAsk_Num: "\<exists>x. topAsk b = Num x"
  using topAsk_empty topAsk_nonempty by (cases "asks b = []") blast+

lemma highestBid_nonempty: "bids b \<noteq> [] \<Longrightarrow> highestBid b = Num (price (hd (bids b)))"
  by (cases "bids b") (auto simp: highestBid_def head_def priceOf_def)

lemma lowestAsk_nonempty: "asks b \<noteq> [] \<Longrightarrow> lowestAsk b = Num (price (last (asks b)))"
  by (simp add: lowestAsk_def slice_last head_def priceOf_def)

lemma highestBid_empty: "bids b = [] \<Longrightarrow> highestBid b = Undefined"
  by (simp add: highestBid_def head_def priceOf_def)

lemma lowestAsk_empty: "asks b = [] \<Longrightarrow> lowestAsk b = Undefined"
  by (simp add: lowestAsk_def head_def priceOf_def)

text \<open>The guarded implementation on an empty side.\<close>

lemma guarded_spread_empty_side:
  "bids b = [] \<or> asks b = [] \<Longrightarrow> spread rnd b = Num 0"
  by (auto simp: spread_def hasSpread_def)

lemma guarded_spreadPercent_empty_side:
  assumes "bids b = [] \<or> asks b = []" "falsy (rnd (Num 0))" "falsy (rnd NaN)"
  shows "spreadPercent rnd b = Num 0"
proof -
  obtain x y where xy: "topAsk b = Num x" "topBid b = Num y"
    using topAsk_Num topBid_Num by blast
  have "js_mul (js_div (spread rnd b) (midPoint b)) (Num 100) = Num 0 \<or>
        js_mul (js_div (spread rnd b) (midPoint b)) (Num 100) = NaN"
    using assms(1) xy by (simp add: guarded_spread_empty_side midPoint_def)
  then show ?thesis using assms(2,3) by (auto simp: spreadPercent_def js_or_def)
qed

lemma unguarded_spread_empty_side:
  "bids b = [] \<or> asks b = [] \<Longrightarrow> spread2 b = NaN"
  by (cases "lowestAsk b"; cases "highestBid b")
     (auto simp: spread2_def highestBid_empty lowestAsk_empty)

text \<open>
  Claim C8. With an empty side, \<open>spread\<close> and \<open>spreadPercent\<close> return 0 and never
  \<open>NaN\<close>. The first implementation does (lemmas above); the second reads the price of
  a missing level: for a book built from one bid and no asks its spread is \<open>NaN\<close>
  and its spread percentage is the rounding of \<open>NaN\<close>.
\<close>

theorem unguarded_metrics_empty_asks:
  "spread2 (newOrderBook2 [(100,5)] []) = NaN \<and>
   spreadPercent2 rnd (newOrderBook2 [(100,5)] []) = rnd NaN \<and>
   spread rnd (newOrderBook [(100,5)] []) = Num 0"
proof -
  have b: "newOrderBook2 [(100,5)] [] =
      \<lparr>levelsDeep = 10, bids = [\<lparr>price = 100, size' = 5, total' = 5\<rparr>], asks = []\<rparr>"
    by code_simp
  have b1: "newOrderBook [(100,5)] [] =
      \<lparr>levelsDeep = 25, bids = [\<lparr>price = 100, size' = 5, total' = 5\<rparr>], asks = []\<rparr>"
    by code_simp
  show ?thesis
    by (simp add: b b1 spread2_def spreadPercent2_def midPoint2_def highestBid_def
          lowestAsk_def head_def priceOf_def spread_def hasSpread_def)
qed

text \<open>
  Claim C9. With both sides non-empty, \<open>midPoint\<close> is the best ask plus half the
  best bid, in both implementations; it coincides with the average of the two
  prices only when the best ask is 0.
\<close>

theorem midPoint_literal_formula:
  assumes "bids b \<noteq> []" "asks b \<noteq> []"
  shows "midPoint b = Num (price (last (asks b)) + price (hd (bids b)) / 2) \<and>
         midPoint2 b = Num (price (last (asks b)) + price (hd (bids b)) / 2) \<and>
         (midPoint b = Num ((price (last (asks b)) + price (hd (bids b))) / 2)
            \<longleftrightarrow> price (last (asks b)) = 0)"
  using assms
  by (auto simp: midPoint_def midPoint2_def topBid_nonempty topAsk_nonempty
        highestBid_nonempty lowestAsk_nonempty field_simps)

theorem midPoint_literal_formula_witness:
  "bids (newOrderBook [(100,5),(99,3)] [(101,4),(102,2)]) \<noteq> [] \<and>
   asks (newOrderBook [(100,5),(99,3)] [(101,4),(102,2)]) \<noteq> [] \<and>
   midPoint (newOrderBook [(100,5),(99,3)] [(101,4),(102,2)]) = Num 151 \<and>
   midPoint2 (newOrderBook [(100,5),(99,3)] [(101,4),(102,2)]) = Num 151 \<and>
   midPoint (newOrderBook [(100,5),(99,3)] [(101,4),(102,2)]) \<noteq> Num (201 / 2)"
  using midPoint_literal_formula [of "newOrderBook [(100,5),(99,3)] [(101,4),(102,2)]"]
  by (simp add: bookA_evaluated)


section \<open>Side isolation\<close>

text \<open>
  Claim C10 lists sortedness, uniqueness, positive sizes and cumulative totals as
  what a book needs for an update of one side to leave the other unchanged. The
  untouched side still passes through the trim: a book of depth 1 that holds two
  asks satisfies all four, and a bid-only update cuts its asks to one level.
\<close>

theorem side_isolation_counterexample:
  "descending (asks \<lparr>levelsDeep = 1, bids = [],
       asks = [\<lparr>price = 102, size' = 2, total' = 6\<rparr>, \<lparr>price = 101, size' = 4, total' = 4\<rparr>]\<rparr>) \<and>
   positiveSizes (asks \<lparr>levelsDeep = 1, bids = [],
       asks = [\<lparr>price = 102, size' = 2, total' = 6\<rparr>, \<lparr>price = 101, size' = 4, total' = 4\<rparr>]\<rparr>) \<and>
   cumulative ASK (asks \<lparr>levelsDeep = 1, bids = [],
       asks = [\<lparr>price = 102, size' = 2, total' = 6\<rparr>, \<lparr>price = 101, size' = 4, total' = 4\<rparr>]\<rparr>) \<and>
   asks (processFeed [(100,5)] [] \<lparr>levelsDeep = 1, bids = [],
       asks = [\<lparr>price = 102, size' = 2, total' = 6\<rparr>, \<lparr>price = 101, size' = 4, total' = 4\<rparr>]\<rparr>)
     \<noteq> asks \<lparr>levelsDeep = 1, bids = [],
       asks = [\<lparr>price = 102, size' = 2, total' = 6\<rparr>, \<lparr>price = 101, size' = 4, total' = 4\<rparr>]\<rparr>"
  by code_simp

text \<open>
  Claim C10, amended. For a book whose sides are strictly descending, have
  positive sizes and cumulative totals, and hold at most \<open>levelsDeep\<close> levels each,
  a bid-only update leaves the asks unchanged element-wise and an ask-only update
  leaves the bids unchanged.
\<close>

theorem side_isolation:
  assumes "descending (bids b)" "positiveSizes (bids b)" "cumulative BID (bids b)"
      "length (bids b) \<le> levelsDeep b"
    and "descending (asks b)" "positiveSizes (asks b)" "cumulative ASK (asks b)"
      "length (asks b) \<le> levelsDeep b"
  shows "asks (processFeed bidBatch [] b) = asks b \<and>
         bids (processFeed [] askBatch b) = bids b"
  using assms
  by (simp add: asks_processFeed bids_processFeed mapOrders_def
        filterEmptyOrders_fixed sumOrders_fixed trimBook_fixed)

theorem side_isolation_witness:
  "descending (bids \<lparr>levelsDeep = 2, bids = [\<lparr>price = 100, size' = 5, total' = 5\<rparr>],
       asks = [\<lparr>price = 102, size' = 2, total' = 6\<rparr>, \<lparr>price = 101, size' = 4, total' = 4\<rparr>]\<rparr>) \<and>
   positiveSizes (asks \<lparr>levelsDeep = 2, bids = [\<lparr>price = 100, size' = 5, total' = 5\<rparr>],
       asks = [\<lparr>price = 102, size' = 2, total' = 6\<rparr>, \<lparr>price = 101, size' = 4, total' = 4\<rparr>]\<rparr>) \<and>
   cumulative ASK (asks \<lparr>levelsDeep = 2, bids = [\<lparr>price = 100, size' = 5, total' = 5\<rparr>],
       asks = [\<lparr>price = 102, size' = 2, total' = 6\<rparr>, \<lparr>price = 101, size' = 4, total' = 4\<rparr>]\<rparr>) \<and>
   asks (processFeed [(99,3)] [] \<lparr>levelsDeep = 2, bids = [\<lparr>price = 100, size' = 5, total' = 5\<rparr>],
       asks = [\<lparr>price = 102, size' = 2, total' = 6\<rparr>, \<lparr>price = 101, size' = 4, total' = 4\<rparr>]\<rparr>) =
     [\<lparr>price = 102, size' = 2, total' = 6\<rparr>, \<lparr>price = 101, size' = 4, total' = 4\<rparr>] \<and>
   bids (processFeed [] [(103,1)] \<lparr>levelsDeep = 2, bids = [\<lparr>price = 100, size' = 5, total' = 5\<rparr>],
       asks = [\<lparr>price = 102, size' = 2, total' = 6\<rparr>, \<lparr>price = 101, size' = 4, total' = 4\<rparr>]\<rparr>) =
     [\<lparr>price = 100, size' = 5, total' = 5\<rparr>]"
  using side_isolation [of "\<lparr>levelsDeep = 2, bids = [\<lparr>price = 100, size' = 5, total' = 5\<rparr>],
       asks = [\<lparr>price = 102, size' = 2, total' = 6\<rparr>, \<lparr>price = 101, size' = 4, total' = 4\<rparr>]\<rparr>"
       "[(99,3)]" "[(103,1)]"]
  by code_simp

section \<open>The merge\<close>

lemma findIndex_None: "findIndex xs P = None \<longleftrightarrow> (\<forall>x\<in>set xs. \<not> P x)"
  by (induction xs) auto

lemma findIndex_Some:
  "findIndex xs P = Some i \<Longrightarrow> i < length xs \<and> P (xs ! i) \<and> (\<forall>j<i. \<not> P (xs ! j))"
proof (induction xs arbitrary: i)
  case Nil
  then show ?case by simp
next
  case (Cons x xs)
  show ?case
  proof (cases "P x")
    case True
    then show ?thesis using Cons.prems by simp
  next
    case False
    then obtain k where k: "findIndex xs P = Some k" "i = Suc k"
      using Cons.prems by auto
    then have "k < length xs \<and> P (xs ! k) \<and> (\<forall>j<k. \<not> P (xs ! j))"
      using Cons.IH by simp
    then show ?thesis using False k by (auto simp: nth_Cons split: nat.split)
  qed
qed

lemma baseSortedIndexBy_correct:
  assumes "sorted (map f xs)" "high \<le> length xs"
    and "\<forall>j<low. f (xs ! j) < v"
    and "\<forall>j. high \<le> j \<and> j < length xs \<longrightarrow> \<not> f (xs ! j) < v"
    and "low \<le> high"
  shows "baseSortedIndexBy xs v f low high \<le> length xs \<and>
         (\<forall>j<baseSortedIndexBy xs v f low high. f (xs ! j) < v) \<and>
         (\<forall>j. baseSortedIndexBy xs v f low high \<le> j \<and> j < length xs \<longrightarrow> \<not> f (xs ! j) < v)"
  using assms
proof (induction xs v f low high rule: baseSortedIndexBy.induct)
  case (1 array v iteratee low high)
  let ?mid = "(low + high) div 2"
  show ?case
  proof (cases "low < high")
    case False
    then show ?thesis using "1.prems" by (simp add: baseSortedIndexBy.simps)
  next
    case lh: True
    then have mid: "low \<le> ?mid" "?mid < high" "?mid < length array"
      using "1.prems"(2) by simp_all
    have mono: "iteratee (array ! i) \<le> iteratee (array ! j)" if "i \<le> j" "j < length array" for i j
      using sorted_nth_mono [OF "1.prems"(1), of i j] that by simp
    show ?thesis
    proof (cases "iteratee (array ! ?mid) < v")
      case True
      have below: "\<forall>j<?mid + 1. iteratee (array ! j) < v"
      proof (intro allI impI)
        fix j assume "j < ?mid + 1"
        then have "iteratee (array ! j) \<le> iteratee (array ! ?mid)"
          using mono [of j ?mid] mid by simp
        then show "iteratee (array ! j) < v" using True by simp
      qed
      have "baseSortedIndexBy array v iteratee low high =
              baseSortedIndexBy array v iteratee (?mid + 1) high"
        using lh True by (subst baseSortedIndexBy.simps) simp
      then show ?thesis
        using "1.IH"(1) [OF lh True "1.prems"(1,2) below "1.prems"(4)] mid by simp
    next
      case False
      have above: "\<forall>j. ?mid \<le> j \<and> j < length array \<longrightarrow> \<not> iteratee (array ! j) < v"
      proof (intro allI impI)
        fix j assume "?mid \<le> j \<and> j < length array"
        then have "iteratee (array ! ?mid) \<le> iteratee (array ! j)"
          using mono [of ?mid j] by simp
        then show "\<not> iteratee (array ! j) < v" using False by simp
      qed
      have "baseSortedIndexBy array v iteratee low high =
              baseSortedIndexBy array v iteratee low ?mid"
        using lh False by (subst baseSortedIndexBy.simps) simp
      then show ?thesis
        using "1.IH"(2) [OF lh False "1.prems"(1) _ "1.prems"(3) above] mid by simp
    qed
  qed
qed

lemma sortedIndexBy_correct:
  assumes "sorted (map f xs)"
  shows "sortedIndexBy xs x f \<le> length xs \<and>
         (\<forall>j<sortedIndexBy xs x f. f (xs ! j) < f x) \<and>
         (\<forall>j. sortedIndexBy xs x f \<le> j \<and> j < length xs \<longrightarrow> \<not> f (xs ! j) < f x)"
proof (cases "xs = []")
  case True
  then show ?thesis by (simp add: sortedIndexBy_def)
next
  case False
  then show ?thesis
    using baseSortedIndexBy_correct [OF assms, of "length xs" 0 "f x"]
    by (simp add: sortedIndexBy_def)
qed

lemma descending_sorted_neg: "descending xs \<Longrightarrow> sorted (map (\<lambda>x. - price x) xs)"
  using sorted_wrt_mono_rel
    [of xs "\<lambda>a b. price a > price b" "\<lambda>x y. - price x \<le> - price y"]
  by (simp add: descending_def sorted_wrt_map)

lemma descending_distinct: "descending xs \<Longrightarrow> distinct (map price xs)"
  unfolding descending_def
  by (induction xs) auto

lemma descending_map_price: "descending xs \<longleftrightarrow> sorted_wrt (>) (map price xs)"
  by (simp add: descending_def sorted_wrt_map)

lemma descending_splice:
  assumes "descending xs" "\<forall>x\<in>set xs. price x \<noteq> price ord"
  shows "descending (splice' (sortedIndexBy xs ord (\<lambda>x. - price x)) ord xs)"
proof -
  let ?r = "sortedIndexBy xs ord (\<lambda>x. - price x)"
  have r: "?r \<le> length xs" "\<forall>j<?r. price (xs ! j) > price ord"
    "\<forall>j. ?r \<le> j \<and> j < length xs \<longrightarrow> \<not> price (xs ! j) > price ord"
    using sortedIndexBy_correct [OF descending_sorted_neg [OF assms(1)], of ord] by simp_all
  have before: "price x > price ord" if "x \<in> set (take ?r xs)" for x
  proof -
    from that obtain j where "j < length (take ?r xs)" "take ?r xs ! j = x"
      by (auto simp: in_set_conv_nth)
    then show ?thesis using r(2) by auto
  qed
  have after: "price ord > price y" if "y \<in> set (drop ?r xs)" for y
  proof -
    from that obtain j where j: "j < length (drop ?r xs)" "drop ?r xs ! j = y"
      by (auto simp: in_set_conv_nth)
    then have "\<not> price y > price ord" using r(1,3) by auto
    moreover have "price y \<noteq> price ord" using assms(2) that in_set_dropD by fast
    ultimately show ?thesis by simp
  qed
  have cross: "price x > price y" if "x \<in> set (take ?r xs)" "y \<in> set (drop ?r xs)" for x y
    using before [OF that(1)] after [OF that(2)] by simp
  have "sorted_wrt (\<lambda>a b. price a > price b) (take ?r xs)"
    "sorted_wrt (\<lambda>a b. price a > price b) (drop ?r xs)"
    using assms(1) by (simp_all add: descending_def)
  then show ?thesis
    unfolding descending_def splice'_def
    using before after cross by (simp add: sorted_wrt_append)
qed

lemma descending_upsertOne: "descending acc \<Longrightarrow> descending (upsertOne acc ord)"
proof (cases "findIndex acc (\<lambda>x. price x = price ord)")
  case None
  assume "descending acc"
  moreover have "\<forall>x\<in>set acc. price x \<noteq> price ord"
    using None by (simp add: findIndex_None)
  ultimately have "descending (splice' (sortedIndexBy acc ord (\<lambda>x. - price x)) ord acc)"
    by (rule descending_splice)
  then show ?thesis using None by (simp add: upsertOne_def)
next
  case (Some i)
  assume d: "descending acc"
  have "map price (acc[i := (acc ! i)\<lparr>size' := size' ord\<rparr>]) = map price acc"
    using findIndex_Some [OF Some] by (simp add: map_update list_update_same_conv)
  then show ?thesis using d Some by (simp add: upsertOne_def descending_map_price)
qed

lemma descending_foldl_upsertOne:
  "descending acc \<Longrightarrow> descending (foldl upsertOne acc ords)"
  by (induction ords arbitrary: acc) (simp_all add: descending_upsertOne)

lemma set_levels_upsertOne:
  assumes "descending acc"
  shows "set (levels (upsertOne acc ord)) =
           {l \<in> set (levels acc). fst l \<noteq> price ord} \<union> {(price ord, size' ord)}"
proof (cases "findIndex acc (\<lambda>x. price x = price ord)")
  case None
  then have no: "\<forall>x\<in>set acc. price x \<noteq> price ord" by (simp add: findIndex_None)
  have "set (take n acc @ ord # drop n acc) = insert ord (set (take n acc @ drop n acc))" for n
    by (simp del: append_take_drop_id)
  then have "set (upsertOne acc ord) = insert ord (set acc)"
    using None by (simp add: upsertOne_def splice'_def)
  then show ?thesis using no by (auto simp: levels_def)
next
  case (Some i)
  then have i: "i < length acc" "price (acc ! i) = price ord"
    using findIndex_Some [OF Some] by simp_all
  have dist: "distinct (map price acc)" using assms by (rule descending_distinct)
  have only: "price x = price ord \<longleftrightarrow> x = acc ! i" if "x \<in> set acc" for x
  proof
    assume px: "price x = price ord"
    from that obtain j where j: "j < length acc" "acc ! j = x" by (auto simp: in_set_conv_nth)
    then have "map price acc ! j = map price acc ! i" using i px by simp
    then have "j = i" using nth_eq_iff_index_eq [OF dist, of j i] i j by simp
    then show "x = acc ! i" using j by simp
  next
    assume "x = acc ! i" then show "price x = price ord" using i by simp
  qed
  have lv: "levels (upsertOne acc ord) = (levels acc)[i := (price ord, size' ord)]"
    using Some i by (simp add: upsertOne_def levels_def map_update)
  have "map fst (levels acc) = map price acc" by (simp add: levels_def)
  then have "distinct (map fst (levels acc))" using dist by simp
  then have dl: "distinct (levels acc)" by (simp add: distinct_map)
  have "set (levels (upsertOne acc ord)) =
          insert (price ord, size' ord) (set (levels acc) - {levels acc ! i})"
    unfolding lv using dl i by (simp add: set_update_distinct levels_def)
  moreover have "set (levels acc) - {levels acc ! i} = {l \<in> set (levels acc). fst l \<noteq> price ord}"
    using only i by (auto simp: levels_def)
  ultimately show ?thesis by auto
qed

lemma set_levels_foldl_upsertOne:
  "descending acc \<Longrightarrow>
     set (levels (foldl upsertOne acc ords)) =
       {l \<in> set (levels acc). fst l \<notin> price ` set ords} \<union> batchLevels ords"
proof (induction ords arbitrary: acc)
  case Nil
  then show ?case by simp
next
  case (Cons x xs)
  have "set (levels (foldl upsertOne acc (x # xs))) =
          {l \<in> set (levels (upsertOne acc x)). fst l \<notin> price ` set xs} \<union> batchLevels xs"
    using Cons.IH [OF descending_upsertOne [OF Cons.prems]] by simp
  also have "\<dots> = {l \<in> set (levels acc). fst l \<notin> price ` set (x # xs)} \<union> batchLevels (x # xs)"
    unfolding set_levels_upsertOne [OF Cons.prems] by auto
  finally show ?case .
qed

section \<open>Sortedness and uniqueness\<close>

lemma map_price_sumOrders [simp]: "map price (sumOrders side xs) = map price xs"
  by (cases side) (simp_all add: sumOrders_BID sumOrders_ASK)

lemma length_sumOrders [simp]: "length (sumOrders side xs) = length xs"
  by (cases side) (simp_all add: sumOrders_BID sumOrders_ASK)

lemma descending_filterEmptyOrders: "descending xs \<Longrightarrow> descending (filterEmptyOrders xs)"
  by (simp add: descending_def filterEmptyOrders_def sorted_wrt_filter)

lemma descending_sumOrders: "descending xs \<Longrightarrow> descending (sumOrders side xs)"
  by (simp add: descending_map_price)

lemma descending_trimBook: "descending xs \<Longrightarrow> descending (trimBook side n xs)"
  by (cases side) (simp_all add: descending_def trimBook_BID trimBook_ASK)

lemma descending_pipeline:
  "descending xs \<Longrightarrow>
     descending (trimBook side n (sumOrders side (filterEmptyOrders (foldl upsertOne xs ords))))"
  by (intro descending_trimBook descending_sumOrders descending_filterEmptyOrders
        descending_foldl_upsertOne)

lemma descending_last_least:
  assumes "descending xs" "x \<in> set xs"
  shows "price (last xs) \<le> price x"
proof -
  have ne: "xs \<noteq> []" using assms(2) by auto
  then have "xs = butlast xs @ [last xs]" by simp
  then have "sorted_wrt (\<lambda>a b. price a > price b) (butlast xs @ [last xs])"
    using assms(1) by (simp add: descending_def)
  then have "\<forall>y\<in>set (butlast xs). price y > price (last xs)"
    by (simp add: sorted_wrt_append)
  moreover have "x \<in> set (butlast xs) \<or> x = last xs"
    using assms(2) ne by (metis Un_iff append_butlast_last_id empty_iff empty_set insert_iff list.simps(15) set_append)
  ultimately show ?thesis by auto
qed

lemma descending_hd_greatest:
  assumes "descending xs" "x \<in> set xs"
  shows "price x \<le> price (hd xs)"
  using assms by (cases xs) (auto simp: descending_def)

text \<open>
  Claim C4. If both sides of the book are strictly descending by price, then after
  any update batch applied by \<open>processFeed\<close> both sides are strictly descending by
  price, so no side holds two levels with the same price; the best (lowest) ask is
  the last entry and the best (highest) bid the first.
\<close>

theorem sortedness_and_uniqueness:
  assumes "descending (bids b)" "descending (asks b)"
  shows "descending (bids (processFeed bf af b)) \<and>
         descending (asks (processFeed bf af b)) \<and>
         distinct (map price (bids (processFeed bf af b))) \<and>
         distinct (map price (asks (processFeed bf af b))) \<and>
         (\<forall>x\<in>set (asks (processFeed bf af b)).
            price (last (asks (processFeed bf af b))) \<le> price x) \<and>
         (\<forall>x\<in>set (bids (processFeed bf af b)).
            price x \<le> price (hd (bids (processFeed bf af b))))"
proof -
  have b: "descending (bids (processFeed bf af b))"
    unfolding bids_processFeed using assms(1) by (rule descending_pipeline)
  have a: "descending (asks (processFeed bf af b))"
    unfolding asks_processFeed using assms(2) by (rule descending_pipeline)
  show ?thesis
    using a b descending_distinct descending_last_least [OF a] descending_hd_greatest [OF b]
    by blast
qed

theorem sortedness_and_uniqueness_witness:
  "descending (bids \<lparr>levelsDeep = 3,
       bids = [\<lparr>price = 100, size' = 5, total' = 5\<rparr>, \<lparr>price = 98, size' = 1, total' = 6\<rparr>],
       asks = [\<lparr>price = 104, size' = 2, total' = 6\<rparr>, \<lparr>price = 101, size' = 4, total' = 4\<rparr>]\<rparr>) \<and>
   descending (asks \<lparr>levelsDeep = 3,
       bids = [\<lparr>price = 100, size' = 5, total' = 5\<rparr>, \<lparr>price = 98, size' = 1, total' = 6\<rparr>],
       asks = [\<lparr>price = 104, size' = 2, total' = 6\<rparr>, \<lparr>price = 101, size' = 4, total' = 4\<rparr>]\<rparr>) \<and>
   map price (bids (processFeed [(99,3),(100,7)] [(103,1),(102,2)] \<lparr>levelsDeep = 3,
       bids = [\<lparr>price = 100, size' = 5, total' = 5\<rparr>, \<lparr>price = 98, size' = 1, total' = 6\<rparr>],
       asks = [\<lparr>price = 104, size' = 2, total' = 6\<rparr>, \<lparr>price = 101, size' = 4, total' = 4\<rparr>]\<rparr>))
     = [100, 99, 98] \<and>
   map price (asks (processFeed [(99,3),(100,7)] [(103,1),(102,2)] \<lparr>levelsDeep = 3,
       bids = [\<lparr>price = 100, size' = 5, total' = 5\<rparr>, \<lparr>price = 98, size' = 1, total' = 6\<rparr>],
       asks = [\<lparr>price = 104, size' = 2, total' = 6\<rparr>, \<lparr>price = 101, size' = 4, total' = 4\<rparr>]\<rparr>))
     = [103, 102, 101] \<and>
   descending (asks (processFeed [(99,3),(100,7)] [(103,1),(102,2)] \<lparr>levelsDeep = 3,
       bids = [\<lparr>price = 100, size' = 5, total' = 5\<rparr>, \<lparr>price = 98, size' = 1, total' = 6\<rparr>],
       asks = [\<lparr>price = 104, size' = 2, total' = 6\<rparr>, \<lparr>price = 101, size' = 4, total' = 4\<rparr>]\<rparr>))"
  using sortedness_and_uniqueness [of "\<lparr>levelsDeep = 3,
       bids = [\<lparr>price = 100, size' = 5, total' = 5\<rparr>, \<lparr>price = 98, size' = 1, total' = 6\<rparr>],
       asks = [\<lparr>price = 104, size' = 2, total' = 6\<rparr>, \<lparr>price = 101, size' = 4, total' = 4\<rparr>]\<rparr>"
       "[(99,3),(100,7)]" "[(103,1),(102,2)]"]
  by code_simp

section \<open>Sorted lists between a trimmed list and the whole\<close>

lemma take_sandwich:
  assumes "sorted_wrt R A" "sorted_wrt R C" "set (take n A) \<subseteq> set C" "set C \<subseteq> set A"
    and asym: "\<And>x y. R x y \<Longrightarrow> \<not> R y x"
  shows "take n C = take n A"
  using assms(1-4)
proof (induction A arbitrary: n C)
  case Nil
  then show ?case by simp
next
  case (Cons a A)
  show ?case
  proof (cases n)
    case 0
    then show ?thesis by simp
  next
    case (Suc m)
    have aC: "a \<in> set C" using Cons.prems(3) Suc by simp
    then obtain c C' where C: "C = c # C'" by (cases C) auto
    have "c = a"
    proof (rule ccontr)
      assume ne: "c \<noteq> a"
      have "c \<in> set A" using Cons.prems(4) C ne by auto
      then have "R a c" using Cons.prems(1) by simp
      moreover have "a \<in> set C'" using aC C ne by auto
      then have "R c a" using Cons.prems(2) C by simp
      ultimately show False using asym by blast
    qed
    have irr: "\<not> R a a" using asym by blast
    have sub1: "set C' \<subseteq> set A"
    proof
      fix x assume x: "x \<in> set C'"
      then have "R a x" using Cons.prems(2) C \<open>c = a\<close> by simp
      then have "x \<noteq> a" using irr by auto
      then show "x \<in> set A" using Cons.prems(4) C x by auto
    qed
    have sub2: "set (take m A) \<subseteq> set C'"
    proof
      fix x assume x: "x \<in> set (take m A)"
      then have "x \<in> set A" by (rule in_set_takeD)
      then have "R a x" using Cons.prems(1) by simp
      then have "x \<noteq> a" using irr by auto
      moreover have "x \<in> set C" using Cons.prems(3) Suc x by auto
      ultimately show "x \<in> set C'" using C \<open>c = a\<close> by auto
    qed
    have "take m C' = take m A"
      using Cons.IH [of C' m] Cons.prems(1,2) C sub1 sub2 by simp
    then show ?thesis using Suc C \<open>c = a\<close> by simp
  qed
qed

lemma lastn_rev: "drop (length xs - n) xs = rev (take n (rev xs))"
  by (simp add: rev_take)

lemma drop_sandwich:
  assumes "sorted_wrt R A" "sorted_wrt R C"
    and "set (drop (length A - n) A) \<subseteq> set C" "set C \<subseteq> set A"
    and asym: "\<And>x y. R x y \<Longrightarrow> \<not> R y x"
  shows "drop (length C - n) C = drop (length A - n) A"
proof -
  have "take n (rev C) = take n (rev A)"
  proof (rule take_sandwich [where R = "\<lambda>x y. R y x"])
    show "sorted_wrt (\<lambda>x y. R y x) (rev A)" using assms(1) by (simp add: sorted_wrt_rev)
    show "sorted_wrt (\<lambda>x y. R y x) (rev C)" using assms(2) by (simp add: sorted_wrt_rev)
    show "set (take n (rev A)) \<subseteq> set (rev C)"
      using assms(3) by (simp add: take_rev)
    show "set (rev C) \<subseteq> set (rev A)" using assms(4) by simp
    show "\<And>x y. R y x \<Longrightarrow> \<not> R x y" using asym by blast
  qed
  then show ?thesis by (simp add: lastn_rev)
qed

lemma whole_sandwich:
  assumes "sorted_wrt R A" "sorted_wrt R C" "set A \<subseteq> set C" "set C \<subseteq> set A"
    and asym: "\<And>x y. R x y \<Longrightarrow> \<not> R y x"
  shows "C = A"
  using take_sandwich [OF assms(1,2) _ assms(4) asym, of "length A + length C"] assms(3)
  by simp

lemma levels_filterEmptyOrders:
  "levels (filterEmptyOrders xs) = filter (\<lambda>l. snd l > 0) (levels xs)"
  by (simp add: levels_def filterEmptyOrders_def filter_map comp_def)

lemma levels_take: "levels (take n xs) = take n (levels xs)"
  by (simp add: levels_def take_map)

lemma levels_drop: "levels (drop n xs) = drop n (levels xs)"
  by (simp add: levels_def drop_map)

lemma length_levels [simp]: "length (levels xs) = length xs"
  by (simp add: levels_def)

lemma levels_runningTotals [simp]: "levels (runningTotals a xs) = levels xs"
  by (induction xs arbitrary: a) (simp_all add: levels_def)

lemma levels_suffixTotals [simp]: "levels (suffixTotals xs) = levels xs"
  by (induction xs) (simp_all add: levels_def)

lemma levels_sumOrders [simp]: "levels (sumOrders side xs) = levels xs"
  by (cases side) (simp_all add: sumOrders_BID sumOrders_ASK)

lemma levels_trimBook:
  "levels (trimBook side n xs) =
     (case side of BID \<Rightarrow> take n (levels xs)
      | ASK \<Rightarrow> if n = 0 then levels xs else drop (length xs - n) (levels xs))"
  by (cases side) (simp_all add: trimBook_BID trimBook_ASK levels_take levels_drop)

lemma descending_levels: "descending xs \<longleftrightarrow> sorted_wrt (\<lambda>a b. fst a > fst b) (levels xs)"
  by (simp add: descending_def levels_def sorted_wrt_map)

lemma runningTotals_cong:
  "levels xs = levels ys \<Longrightarrow> runningTotals a xs = runningTotals a ys"
proof (induction xs arbitrary: ys a)
  case Nil
  then show ?case by (simp add: levels_def)
next
  case (Cons x xs)
  then obtain y ys' where ys: "ys = y # ys'" by (cases ys) (auto simp: levels_def)
  then have eq: "price x = price y" "size' x = size' y" "levels xs = levels ys'"
    using Cons.prems by (simp_all add: levels_def)
  have upd: "x\<lparr>total' := t\<rparr> = y\<lparr>total' := t\<rparr>" for t
    by (rule Order.equality) (simp_all add: eq(1,2))
  have "runningTotals (a + size' y) xs = runningTotals (a + size' y) ys'"
    using Cons.IH [OF eq(3)] .
  then show ?case unfolding ys runningTotals.simps eq(2) upd by simp
qed

lemma suffixTotals_cong:
  "levels xs = levels ys \<Longrightarrow> suffixTotals xs = suffixTotals ys"
proof (induction xs arbitrary: ys)
  case Nil
  then show ?case by (simp add: levels_def)
next
  case (Cons x xs)
  then obtain y ys' where ys: "ys = y # ys'" by (cases ys) (auto simp: levels_def)
  then have eq: "price x = price y" "size' x = size' y" "levels xs = levels ys'"
    using Cons.prems by (simp_all add: levels_def)
  have "map size' xs = map snd (levels xs)" "map size' ys' = map snd (levels ys')"
    by (simp_all add: levels_def)
  then have sums: "sum_list (map size' xs) = sum_list (map size' ys')" using eq(3) by simp
  have upd: "x\<lparr>total' := t\<rparr> = y\<lparr>total' := t\<rparr>" for t
    by (rule Order.equality) (simp_all add: eq(1,2))
  have "suffixTotals xs = suffixTotals ys'" using Cons.IH [OF eq(3)] .
  then show ?case unfolding ys suffixTotals.simps sums eq(2) upd by simp
qed

lemma sumOrders_cong: "levels xs = levels ys \<Longrightarrow> sumOrders side xs = sumOrders side ys"
  by (cases side)
     (auto simp: sumOrders_BID sumOrders_ASK intro: runningTotals_cong suffixTotals_cong)

section \<open>Idempotence\<close>

lemma set_levels_merge:
  assumes "descending xs"
  shows "set (levels (filterEmptyOrders (foldl upsertOne xs ords))) =
           {l. (l \<in> set (levels xs) \<and> fst l \<notin> price ` set ords \<or> l \<in> batchLevels ords)
               \<and> snd l > 0}"
  unfolding levels_filterEmptyOrders set_filter set_levels_foldl_upsertOne [OF assms]
  by auto

lemma set_levels_trimBook: "set (levels (trimBook side n xs)) \<subseteq> set (levels xs)"
  by (cases side) (auto simp: levels_trimBook dest: in_set_takeD in_set_dropD)

lemma pipeline_idem:
  assumes "descending xs"
  shows "trimBook side n (sumOrders side (filterEmptyOrders (foldl upsertOne
           (trimBook side n (sumOrders side (filterEmptyOrders (foldl upsertOne xs ords))))
           ords))) =
         trimBook side n (sumOrders side (filterEmptyOrders (foldl upsertOne xs ords)))"
proof -
  let ?A = "filterEmptyOrders (foldl upsertOne xs ords)"
  let ?T = "trimBook side n (sumOrders side ?A)"
  let ?C = "filterEmptyOrders (foldl upsertOne ?T ords)"
  let ?R = "\<lambda>a b :: real \<times> real. fst a > fst b"
  have dA: "descending ?A"
    using assms by (intro descending_filterEmptyOrders descending_foldl_upsertOne)
  have dT: "descending ?T" using assms by (rule descending_pipeline)
  have dC: "descending ?C"
    using dT by (intro descending_filterEmptyOrders descending_foldl_upsertOne)
  have sA: "sorted_wrt ?R (levels ?A)" and sC: "sorted_wrt ?R (levels ?C)"
    using dA dC by (simp_all add: descending_levels)
  have asym: "\<And>x y. ?R x y \<Longrightarrow> \<not> ?R y x" by simp
  have TA: "levels ?T = levels (trimBook side n ?A)"
    by (simp add: trim_sum_commute)
  have T_sub_A: "set (levels ?T) \<subseteq> set (levels ?A)"
    unfolding TA by (rule set_levels_trimBook)
  have C_sub_A: "set (levels ?C) \<subseteq> set (levels ?A)"
    using T_sub_A unfolding set_levels_merge [OF dT] set_levels_merge [OF assms] by auto
  have T_sub_C: "set (levels ?T) \<subseteq> set (levels ?C)"
    using T_sub_A unfolding set_levels_merge [OF dT] set_levels_merge [OF assms] by auto
  have "levels (trimBook side n ?C) = levels (trimBook side n ?A)"
  proof (cases side)
    case BID
    have "set (take n (levels ?A)) \<subseteq> set (levels ?C)"
      using T_sub_C unfolding TA by (simp add: BID levels_trimBook)
    then have "take n (levels ?C) = take n (levels ?A)"
      using take_sandwich [OF sA sC _ C_sub_A asym] by blast
    then show ?thesis by (simp add: BID levels_trimBook)
  next
    case ASK
    show ?thesis
    proof (cases "n = 0")
      case True
      have "set (levels ?A) \<subseteq> set (levels ?C)"
        using T_sub_C unfolding TA by (simp add: ASK True levels_trimBook)
      then have "levels ?C = levels ?A"
        using whole_sandwich [OF sA sC _ C_sub_A asym] by blast
      then show ?thesis by (simp add: ASK True levels_trimBook)
    next
      case False
      have "set (drop (length (levels ?A) - n) (levels ?A)) \<subseteq> set (levels ?C)"
        using T_sub_C unfolding TA by (simp add: ASK False levels_trimBook)
      then have "drop (length (levels ?C) - n) (levels ?C) =
                 drop (length (levels ?A) - n) (levels ?A)"
        using drop_sandwich [OF sA sC _ C_sub_A asym] by blast
      then show ?thesis by (simp add: ASK False levels_trimBook)
    qed
  qed
  then have "sumOrders side (trimBook side n ?C) = sumOrders side (trimBook side n ?A)"
    by (rule sumOrders_cong)
  then show ?thesis by (simp only: trim_sum_commute)
qed

text \<open>
  Claim C7. For a book whose sides are strictly descending by price (sortedness and
  uniqueness; positive sizes are not needed) and every pair of batches, applying the
  same batches by \<open>processFeed\<close> twice gives the same book as applying them once.
\<close>

theorem processFeed_idempotent:
  assumes "descending (bids b)" "descending (asks b)"
  shows "processFeed bf af (processFeed bf af b) = processFeed bf af b"
proof (rule OrderBook.equality)
  show "levelsDeep (processFeed bf af (processFeed bf af b)) = levelsDeep (processFeed bf af b)"
    by simp
  show "bids (processFeed bf af (processFeed bf af b)) = bids (processFeed bf af b)"
    unfolding bids_processFeed [of bf af "processFeed bf af b"] levelsDeep_processFeed
    unfolding bids_processFeed [of bf af b]
    using assms(1) by (rule pipeline_idem)
  show "asks (processFeed bf af (processFeed bf af b)) = asks (processFeed bf af b)"
    unfolding asks_processFeed [of bf af "processFeed bf af b"] levelsDeep_processFeed
    unfolding asks_processFeed [of bf af b]
    using assms(2) by (rule pipeline_idem)
qed simp

theorem processFeed_idempotent_witness:
  "descending (bids \<lparr>levelsDeep = 2,
       bids = [\<lparr>price = 100, size' = 5, total' = 5\<rparr>, \<lparr>price = 98, size' = 1, total' = 6\<rparr>],
       asks = [\<lparr>price = 104, size' = 2, total' = 6\<rparr>, \<lparr>price = 101, size' = 4, total' = 4\<rparr>]\<rparr>) \<and>
   descending (asks \<lparr>levelsDeep = 2,
       bids = [\<lparr>price = 100, size' = 5, total' = 5\<rparr>, \<lparr>price = 98, size' = 1, total' = 6\<rparr>],
       asks = [\<lparr>price = 104, size' = 2, total' = 6\<rparr>, \<lparr>price = 101, size' = 4, total' = 4\<rparr>]\<rparr>) \<and>
   processFeed [(99,3),(100,0),(97,2)] [(103,1),(101,0),(103,6)]
     (processFeed [(99,3),(100,0),(97,2)] [(103,1),(101,0),(103,6)] \<lparr>levelsDeep = 2,
       bids = [\<lparr>price = 100, size' = 5, total' = 5\<rparr>, \<lparr>price = 98, size' = 1, total' = 6\<rparr>],
       asks = [\<lparr>price = 104, size' = 2, total' = 6\<rparr>, \<lparr>price = 101, size' = 4, total' = 4\<rparr>]\<rparr>) =
   \<lparr>levelsDeep = 2,
       bids = [\<lparr>price = 99, size' = 3, total' = 3\<rparr>, \<lparr>price = 98, size' = 1, total' = 4\<rparr>],
       asks = [\<lparr>price = 104, size' = 2, total' = 8\<rparr>, \<lparr>price = 103, size' = 6, total' = 6\<rparr>]\<rparr> \<and>
   processFeed [(99,3),(100,0),(97,2)] [(103,1),(101,0),(103,6)] \<lparr>levelsDeep = 2,
       bids = [\<lparr>price = 100, size' = 5, total' = 5\<rparr>, \<lparr>price = 98, size' = 1, total' = 6\<rparr>],
       asks = [\<lparr>price = 104, size' = 2, total' = 6\<rparr>, \<lparr>price = 101, size' = 4, total' = 4\<rparr>]\<rparr> =
   \<lparr>levelsDeep = 2,
       bids = [\<lparr>price = 99, size' = 3, total' = 3\<rparr>, \<lparr>price = 98, size' = 1, total' = 4\<rparr>],
       asks = [\<lparr>price = 104, size' = 2, total' = 8\<rparr>, \<lparr>price = 103, size' = 6, total' = 6\<rparr>]\<rparr>"
  using processFeed_idempotent [of "\<lparr>levelsDeep = 2,
       bids = [\<lparr>price = 100, size' = 5, total' = 5\<rparr>, \<lparr>price = 98, size' = 1, total' = 6\<rparr>],
       asks = [\<lparr>price = 104, size' = 2, total' = 6\<rparr>, \<lparr>price = 101, size' = 4, total' = 4\<rparr>]\<rparr>"
       "[(99,3),(100,0),(97,2)]" "[(103,1),(101,0),(103,6)]"]
  by code_simp

section \<open>Deletion\<close>

lemma map_size_sumOrders [simp]: "map size' (sumOrders side xs) = map size' xs"
  by (cases side) (simp_all add: sumOrders_BID sumOrders_ASK)

lemma positiveSizes_map: "positiveSizes xs \<longleftrightarrow> (\<forall>s\<in>set (map size' xs). 0 < s)"
  by (auto simp: positiveSizes_def)

lemma positiveSizes_pipeline:
  "positiveSizes (trimBook side n (sumOrders side (filterEmptyOrders xs)))"
proof -
  have "positiveSizes (filterEmptyOrders xs)"
    by (simp add: positiveSizes_def filterEmptyOrders_def)
  then have "positiveSizes (sumOrders side (filterEmptyOrders xs))"
    by (simp add: positiveSizes_map)
  then show ?thesis
    by (cases side) (auto simp: positiveSizes_def trimBook_BID trimBook_ASK
          dest: in_set_takeD in_set_dropD)
qed

lemma cumulative_pipeline: "cumulative side (trimBook side n (sumOrders side xs))"
  unfolding trim_sum_commute
  by (cases side) (simp_all add: sumOrders_BID sumOrders_ASK
        cumulative_runningTotals cumulative_suffixTotals)

lemma wellFormed_pipeline:
  assumes "descending xs" "0 < n"
  shows "wellFormed side n
           (trimBook side n (sumOrders side (filterEmptyOrders (foldl upsertOne xs ords))))"
  unfolding wellFormed_def
  using descending_pipeline [OF assms(1)] positiveSizes_pipeline cumulative_pipeline
    length_trimBook [OF assms(2)]
  by blast

lemma processFeed_wellFormed:
  assumes "descending (bids b)" "descending (asks b)" "0 < levelsDeep b"
  shows "wellFormed BID (levelsDeep b) (bids (processFeed bf af b)) \<and>
         wellFormed ASK (levelsDeep b) (asks (processFeed bf af b))"
  unfolding bids_processFeed asks_processFeed
  using assms by (simp add: wellFormed_pipeline)

lemma wellFormed_fixed:
  assumes "wellFormed side n xs"
  shows "trimBook side n (sumOrders side (filterEmptyOrders xs)) = xs"
  using assms
  by (simp add: wellFormed_def filterEmptyOrders_fixed sumOrders_fixed trimBook_fixed)

lemma filter_upsert_absent:
  assumes "p \<notin> price ` set xs"
  shows "filterEmptyOrders (upsertOne xs (mapOrder (p, 0))) = filterEmptyOrders xs"
proof -
  have "findIndex xs (\<lambda>x. price x = price (mapOrder (p, 0))) = None"
    using assms by (auto simp: findIndex_None mapOrder_def)
  moreover have "filterEmptyOrders (take r xs @ mapOrder (p, 0) # drop r xs) =
                 filterEmptyOrders (take r xs @ drop r xs)" for r
    by (simp add: filterEmptyOrders_def mapOrder_def del: append_take_drop_id)
  ultimately show ?thesis by (simp add: upsertOne_def splice'_def)
qed

lemma filter_upsert_present:
  assumes "descending xs" "positiveSizes xs" "p \<in> price ` set xs"
  shows "filterEmptyOrders (upsertOne xs (mapOrder (p, 0))) = filter (\<lambda>x. price x \<noteq> p) xs"
proof -
  have "findIndex xs (\<lambda>x. price x = p) \<noteq> None"
    using assms(3) by (auto simp: findIndex_None)
  then obtain i where some: "findIndex xs (\<lambda>x. price x = p) = Some i" by auto
  then have i: "i < length xs" "price (xs ! i) = p" "\<forall>j<i. price (xs ! j) \<noteq> p"
    using findIndex_Some [OF some] by simp_all
  have before: "price x \<noteq> p" if "x \<in> set (take i xs)" for x
  proof -
    from that obtain j where "j < length (take i xs)" "take i xs ! j = x"
      by (auto simp: in_set_conv_nth)
    then show ?thesis using i(3) by auto
  qed
  have after: "price x \<noteq> p" if "x \<in> set (drop (Suc i) xs)" for x
  proof -
    from that obtain j where j: "j < length (drop (Suc i) xs)" "drop (Suc i) xs ! j = x"
      by (auto simp: in_set_conv_nth)
    then have "price (xs ! i) > price (xs ! (Suc i + j))"
      using sorted_wrt_nth_less [of "\<lambda>a b. price a > price b" xs i "Suc i + j"] assms(1)
      by (simp add: descending_def)
    then show ?thesis using i(2) j by auto
  qed
  have pos: "0 < size' x" if "x \<in> set xs" for x
    using assms(2) that by (simp add: positiveSizes_def)
  have split: "xs = take i xs @ xs ! i # drop (Suc i) xs"
    using i(1) by (rule id_take_nth_drop)
  have "upsertOne xs (mapOrder (p, 0)) =
          take i xs @ (xs ! i)\<lparr>size' := 0\<rparr> # drop (Suc i) xs"
    using some i(1) by (simp add: upsertOne_def mapOrder_def upd_conv_take_nth_drop)
  moreover have "filter (\<lambda>x. 0 < size' x) (take i xs) = take i xs"
    "filter (\<lambda>x. 0 < size' x) (drop (Suc i) xs) = drop (Suc i) xs"
    using pos by (auto simp: filter_id_conv dest: in_set_takeD in_set_dropD)
  ultimately have "filterEmptyOrders (upsertOne xs (mapOrder (p, 0))) =
               take i xs @ drop (Suc i) xs"
    by (simp add: filterEmptyOrders_def)
  moreover have "filter (\<lambda>x. price x \<noteq> p) (take i xs @ xs ! i # drop (Suc i) xs) =
                   take i xs @ drop (Suc i) xs"
    using before after i(2) by simp
  ultimately show ?thesis using split by simp
qed

lemma delete_absent:
  assumes "wellFormed side n xs" "p \<notin> price ` set xs"
  shows "trimBook side n (sumOrders side (filterEmptyOrders
           (foldl upsertOne xs (mapOrders [(p, 0)])))) = xs"
  using assms by (simp add: mapOrders_def filter_upsert_absent wellFormed_fixed)

lemma delete_present:
  assumes "descending xs" "positiveSizes xs" "p \<in> price ` set xs"
  shows "trimBook side n (sumOrders side (filterEmptyOrders
           (foldl upsertOne xs (mapOrders [(p, 0)])))) =
         trimBook side n (sumOrders side (filter (\<lambda>x. price x \<noteq> p) xs))"
  using assms by (simp add: mapOrders_def filter_upsert_present)

lemma set_trimBook_subset: "set (trimBook side n xs) \<subseteq> set xs"
  by (cases side) (auto simp: trimBook_BID trimBook_ASK dest: in_set_takeD in_set_dropD)

lemma price_removed:
  "p \<notin> price ` set (trimBook side n (sumOrders side (filter (\<lambda>x. price x \<noteq> p) xs)))"
proof -
  have "price ` set (sumOrders side (filter (\<lambda>x. price x \<noteq> p) xs)) =
          set (map price (sumOrders side (filter (\<lambda>x. price x \<noteq> p) xs)))"
    by (simp only: set_map)
  then have "p \<notin> price ` set (sumOrders side (filter (\<lambda>x. price x \<noteq> p) xs))"
    by auto
  then show ?thesis using set_trimBook_subset by fast
qed

text \<open>
  Claim C6 says that, for any book state, a tuple of size 0 for a price absent from
  its side leaves the side unchanged. The side still passes through the trim: a
  book of depth 1 that holds the bids 100 and 99, sorted, with positive sizes and
  cumulative totals, loses the bid at 99 when the tuple \<open>[50, 0]\<close> is applied.
\<close>

theorem deletion_noop_counterexample:
  "descending (bids \<lparr>levelsDeep = 1,
       bids = [\<lparr>price = 100, size' = 5, total' = 5\<rparr>, \<lparr>price = 99, size' = 3, total' = 8\<rparr>],
       asks = []\<rparr>) \<and>
   positiveSizes (bids \<lparr>levelsDeep = 1,
       bids = [\<lparr>price = 100, size' = 5, total' = 5\<rparr>, \<lparr>price = 99, size' = 3, total' = 8\<rparr>],
       asks = []\<rparr>) \<and>
   cumulative BID (bids \<lparr>levelsDeep = 1,
       bids = [\<lparr>price = 100, size' = 5, total' = 5\<rparr>, \<lparr>price = 99, size' = 3, total' = 8\<rparr>],
       asks = []\<rparr>) \<and>
   50 \<notin> price ` set (bids \<lparr>levelsDeep = 1,
       bids = [\<lparr>price = 100, size' = 5, total' = 5\<rparr>, \<lparr>price = 99, size' = 3, total' = 8\<rparr>],
       asks = []\<rparr>) \<and>
   bids (processFeed [(50, 0)] [] \<lparr>levelsDeep = 1,
       bids = [\<lparr>price = 100, size' = 5, total' = 5\<rparr>, \<lparr>price = 99, size' = 3, total' = 8\<rparr>],
       asks = []\<rparr>) = [\<lparr>price = 100, size' = 5, total' = 5\<rparr>] \<and>
   bids (processFeed [(50, 0)] [] \<lparr>levelsDeep = 1,
       bids = [\<lparr>price = 100, size' = 5, total' = 5\<rparr>, \<lparr>price = 99, size' = 3, total' = 8\<rparr>],
       asks = []\<rparr>) \<noteq>
   bids \<lparr>levelsDeep = 1,
       bids = [\<lparr>price = 100, size' = 5, total' = 5\<rparr>, \<lparr>price = 99, size' = 3, total' = 8\<rparr>],
       asks = []\<rparr>"
  by code_simp

text \<open>
  Claim C6, amended. For a book whose sides are strictly descending by price, with
  positive sizes and cumulative totals, a tuple of size 0 for a price present on its
  side removes that level from the committed sequence: what is committed is the
  aggregation and trim of the other levels. A tuple of size 0 for a price absent from
  its side leaves the side unchanged when the side holds at most \<open>levelsDeep\<close> levels.
\<close>

theorem deletion_semantics:
  assumes "descending (bids b)" "positiveSizes (bids b)" "cumulative BID (bids b)"
    and "descending (asks b)" "positiveSizes (asks b)" "cumulative ASK (asks b)"
  shows "(p \<in> price ` set (bids b) \<longrightarrow>
            p \<notin> price ` set (bids (processFeed [(p, 0)] [] b)) \<and>
            bids (processFeed [(p, 0)] [] b) =
              trimBook BID (levelsDeep b)
                (sumOrders BID (filter (\<lambda>x. price x \<noteq> p) (bids b)))) \<and>
         (p \<notin> price ` set (bids b) \<and> length (bids b) \<le> levelsDeep b \<longrightarrow>
            bids (processFeed [(p, 0)] [] b) = bids b) \<and>
         (p \<in> price ` set (asks b) \<longrightarrow>
            p \<notin> price ` set (asks (processFeed [] [(p, 0)] b)) \<and>
            asks (processFeed [] [(p, 0)] b) =
              trimBook ASK (levelsDeep b)
                (sumOrders ASK (filter (\<lambda>x. price x \<noteq> p) (asks b)))) \<and>
         (p \<notin> price ` set (asks b) \<and> length (asks b) \<le> levelsDeep b \<longrightarrow>
            asks (processFeed [] [(p, 0)] b) = asks b)"
proof -
  have wb: "length (bids b) \<le> levelsDeep b \<Longrightarrow> wellFormed BID (levelsDeep b) (bids b)"
    using assms(1-3) by (simp add: wellFormed_def)
  have wa: "length (asks b) \<le> levelsDeep b \<Longrightarrow> wellFormed ASK (levelsDeep b) (asks b)"
    using assms(4-6) by (simp add: wellFormed_def)
  show ?thesis
    unfolding bids_processFeed asks_processFeed
    using delete_present [OF assms(1,2), of p BID "levelsDeep b"]
      delete_present [OF assms(4,5), of p ASK "levelsDeep b"]
      delete_absent [OF wb, of p] delete_absent [OF wa, of p]
      price_removed [of p BID "levelsDeep b" "bids b"]
      price_removed [of p ASK "levelsDeep b" "asks b"]
    by simp
qed

theorem deletion_semantics_witness:
  "descending [\<lparr>price = 100, size' = 5, total' = 5\<rparr>, \<lparr>price = 99, size' = 3, total' = 8\<rparr>] \<and>
   positiveSizes [\<lparr>price = 100, size' = 5, total' = 5\<rparr>, \<lparr>price = 99, size' = 3, total' = 8\<rparr>] \<and>
   cumulative BID [\<lparr>price = 100, size' = 5, total' = 5\<rparr>, \<lparr>price = 99, size' = 3, total' = 8\<rparr>] \<and>
   descending [\<lparr>price = 102, size' = 2, total' = 6\<rparr>, \<lparr>price = 101, size' = 4, total' = 4\<rparr>] \<and>
   positiveSizes [\<lparr>price = 102, size' = 2, total' = 6\<rparr>, \<lparr>price = 101, size' = 4, total' = 4\<rparr>] \<and>
   cumulative ASK [\<lparr>price = 102, size' = 2, total' = 6\<rparr>, \<lparr>price = 101, size' = 4, total' = 4\<rparr>] \<and>
   bids (processFeed [(100, 0)] [] \<lparr>levelsDeep = 25,
       bids = [\<lparr>price = 100, size' = 5, total' = 5\<rparr>, \<lparr>price = 99, size' = 3, total' = 8\<rparr>],
       asks = [\<lparr>price = 102, size' = 2, total' = 6\<rparr>, \<lparr>price = 101, size' = 4, total' = 4\<rparr>]\<rparr>) =
     [\<lparr>price = 99, size' = 3, total' = 3\<rparr>] \<and>
   asks (processFeed [] [(100, 0)] \<lparr>levelsDeep = 25,
       bids = [\<lparr>price = 100, size' = 5, total' = 5\<rparr>, \<lparr>price = 99, size' = 3, total' = 8\<rparr>],
       asks = [\<lparr>price = 102, size' = 2, total' = 6\<rparr>, \<lparr>price = 101, size' = 4, total' = 4\<rparr>]\<rparr>) =
     [\<lparr>price = 102, size' = 2, total' = 6\<rparr>, \<lparr>price = 101, size' = 4, total' = 4\<rparr>] \<and>
   asks (processFeed [] [(101, 0)] \<lparr>levelsDeep = 25,
       bids = [\<lparr>price = 100, size' = 5, total' = 5\<rparr>, \<lparr>price = 99, size' = 3, total' = 8\<rparr>],
       asks = [\<lparr>price = 102, size' = 2, total' = 6\<rparr>, \<lparr>price = 101, size' = 4, total' = 4\<rparr>]\<rparr>) =
     [\<lparr>price = 102, size' = 2, total' = 2\<rparr>] \<and>
   bids (processFeed [(101, 0)] [] \<lparr>levelsDeep = 25,
       bids = [\<lparr>price = 100, size' = 5, total' = 5\<rparr>, \<lparr>price = 99, size' = 3, total' = 8\<rparr>],
       asks = [\<lparr>price = 102, size' = 2, total' = 6\<rparr>, \<lparr>price = 101, size' = 4, total' = 4\<rparr>]\<rparr>) =
     [\<lparr>price = 100, size' = 5, total' = 5\<rparr>, \<lparr>price = 99, size' = 3, total' = 8\<rparr>] \<and>
   bids (processFeed [(100, 0)] [] \<lparr>levelsDeep = 1,
       bids = [\<lparr>price = 100, size' = 5, total' = 5\<rparr>, \<lparr>price = 99, size' = 3, total' = 8\<rparr>],
       asks = [\<lparr>price = 102, size' = 2, total' = 6\<rparr>, \<lparr>price = 101, size' = 4, total' = 4\<rparr>]\<rparr>) =
     [\<lparr>price = 99, size' = 3, total' = 3\<rparr>]"
  using deletion_semantics [of "\<lparr>levelsDeep = 25,
       bids = [\<lparr>price = 100, size' = 5, total' = 5\<rparr>, \<lparr>price = 99, size' = 3, total' = 8\<rparr>],
       asks = [\<lparr>price = 102, size' = 2, total' = 6\<rparr>, \<lparr>price = 101, size' = 4, total' = 4\<rparr>]\<rparr>" 100]
    deletion_semantics [of "\<lparr>levelsDeep = 25,
       bids = [\<lparr>price = 100, size' = 5, total' = 5\<rparr>, \<lparr>price = 99, size' = 3, total' = 8\<rparr>],
       asks = [\<lparr>price = 102, size' = 2, total' = 6\<rparr>, \<lparr>price = 101, size' = 4, total' = 4\<rparr>]\<rparr>" 101]
    deletion_semantics [of "\<lparr>levelsDeep = 1,
       bids = [\<lparr>price = 100, size' = 5, total' = 5\<rparr>, \<lparr>price = 99, size' = 3, total' = 8\<rparr>],
       asks = [\<lparr>price = 102, size' = 2, total' = 6\<rparr>, \<lparr>price = 101, size' = 4, total' = 4\<rparr>]\<rparr>" 100]
  by code_simp

end
